theory Spec2Isabelle
  imports Complex_Main "HOL-Library.Word"
begin

unbundle bit_operations_syntax

section \<open>The compressed-stream relay of tools/camerastream\<close>

text \<open>
  The two scripts \<^verbatim>\<open>compressed_vipc3.py\<close> and \<^verbatim>\<open>compressed_vipc4.py\<close> hold the same
  worker loop \<^verbatim>\<open>decoder\<close>: packets of a subscription socket are gated on the first
  keyframe, decoded, repacked from planar YUV420 to the bus layout and sent to the
  vision bus. After the send the first script has lines that are to show the frame in a
  window, the second hands a converted frame to a queue at most once per second.

  Everything the loop obtains from outside is an input of the model:
  \<^item> the HEVC codec is a transition function \<open>dec\<close> on a codec state: one call of
    \<^verbatim>\<open>codec.decode\<close> takes the state and the bytes and returns the new state and the
    list of frames; a frame is the flattened \<^verbatim>\<open>yuv420p\<close> array of bytes;
  \<^item> the clock readings and the wall-clock time of one iteration are the fields of an
    \<open>env\<close> record that comes with each packet;
  \<^item> \<open>ns\<close> stands for the conversion \<^verbatim>\<open>int(t * 1e9)\<close> of a clock reading.
  What the loop does to the outside is a list of events per iteration. The calls into
  the libraries (socket, codec, bus, queue) are taken to return; what can end the loop
  is what the scripts themselves do: the \<^verbatim>\<open>assert\<close>, an index into an empty list, a
  reshape that does not fit, and the attribute that the display lines of the first
  script read from a numpy array.
\<close>

subsection \<open>Bytes and packets\<close>

type_synonym byte = "8 word"
type_synonym bytes = "byte list"

text \<open>\<^verbatim>\<open>V4L2_BUF_FLAG_KEYFRAME = 8\<close>\<close>

definition V4L2_BUF_FLAG_KEYFRAME :: int where
  "V4L2_BUF_FLAG_KEYFRAME = 8"

text \<open>
  The fields of an event that the control flow and the calls read. The capture and send
  timestamps of an event enter only the latency figures of the debug line, which are
  floating-point and not modelled.
\<close>

record packet =
  encodeId :: int
  flags :: int
  header :: bytes
  data :: bytes

text \<open>
  What one iteration reads from its surroundings: \<open>t_recv\<close> is the value of
  \<^verbatim>\<open>time.monotonic()\<close> appended to \<^verbatim>\<open>time_q\<close>, \<open>t_send\<close> the value of
  \<^verbatim>\<open>time.monotonic()\<close> in the arguments of \<^verbatim>\<open>vipc_server.send\<close>, \<open>wall\<close> the value
  of \<^verbatim>\<open>time.time()\<close> read by the throttle of the second script (an exact real number
  here).
\<close>

record 't env =
  t_recv :: 't
  t_send :: 't
  wall :: real

subsection \<open>Worker state\<close>

text \<open>
  The local variables of \<^verbatim>\<open>decoder\<close> that live across iterations, and the codec
  object. The second script has \<^verbatim>\<open>last_capture_time\<close> in addition.
\<close>

record ('c, 't) wstate =
  cnt :: int
  last_idx :: int
  seen_iframe :: bool
  time_q :: "'t list"
  codec :: 'c

record ('c, 't) wstate4 = "('c, 't) wstate" +
  last_capture_time :: real

definition init3 :: "'c \<Rightarrow> ('c, 't) wstate" where
  "init3 c = \<lparr>cnt = 0, last_idx = - 1, seen_iframe = False, time_q = [], codec = c\<rparr>"

definition init4 :: "'c \<Rightarrow> real \<Rightarrow> ('c, 't) wstate4" where
  "init4 c t0 = \<lparr>cnt = 0, last_idx = - 1, seen_iframe = False, time_q = [], codec = c,
     last_capture_time = t0\<rparr>"

subsection \<open>Events and ways to leave the loop\<close>

datatype msg = DropPacket | WaitingForIframe | DropSurface | Latency int

text \<open>
  \<open>Print m\<close> is a line of debug output (\<open>Latency i\<close> the latency line, which names
  the packet's \<^verbatim>\<open>encodeId\<close>); \<open>DecodeHeader h\<close> and \<open>DecodeData d n\<close> are the two
  calls of \<^verbatim>\<open>codec.decode\<close>, the second with the number of frames it returned;
  \<open>Send img i c p\<close> is \<^verbatim>\<open>vipc_server.send(vst, img, i, c, p)\<close>; \<open>Forward f i\<close> is the
  \<^verbatim>\<open>frame_queue.put\<close> of the second script, \<open>Sleep\<close> the \<^verbatim>\<open>time.sleep(0.1)\<close> of the
  first.
\<close>

datatype event =
    Print msg
  | DecodeHeader bytes
  | DecodeData bytes nat
  | Send bytes int int int
  | Forward bytes int
  | Sleep

text \<open>
  The ways the worker leaves its loop: a failed \<^verbatim>\<open>assert\<close> (the scripts are started
  through their \<^verbatim>\<open>python3\<close> line, so assertions are checked), \<^verbatim>\<open>time_q[0]\<close> on an
  empty list, a \<^verbatim>\<open>reshape\<close> that does not fit, and the read of an attribute that the
  object does not have.
\<close>

datatype stop = AssertionError | IndexError | ValueError | AttributeError

text \<open>
  The three ways a block of the loop body ends: an exception or return, the
  \<^verbatim>\<open>continue\<close> statement, or falling through to the next line with a value.
\<close>

datatype ('s, 'a) flow = Raise stop | Continue 's | Proceed 's 'a

subsection \<open>Bus packing\<close>

text \<open>
  \<^verbatim>\<open>a.reshape(2, -1).ravel('F')\<close> on a flat array: two rows of half the length each,
  read column by column. The reshape raises \<^verbatim>\<open>ValueError\<close> when the length is odd.
\<close>

definition interleave :: "'a list \<Rightarrow> 'a list \<Rightarrow> 'a list" where
  "interleave us vs = concat (map (\<lambda>(u, v). [u, v]) (zip us vs))"

definition ravel_F2 :: "'a list \<Rightarrow> stop + 'a list" where
  "ravel_F2 xs =
     (if odd (length xs) then Inl ValueError
      else let n = length xs div 2 in Inr (interleave (take n xs) (drop n xs)))"

text \<open>
  Lines 86 to 89 of the first script (104 to 107 of the second):
  \<^verbatim>\<open>
  uv_offset = H * W
  y = img_yuv[:uv_offset]
  uv = img_yuv[uv_offset:].reshape(2, -1).ravel('F')
  img_yuv = np.hstack((y, uv))
  \<close>
\<close>

definition pack :: "nat \<Rightarrow> nat \<Rightarrow> 'a list \<Rightarrow> stop + 'a list" where
  "pack W H img_yuv =
     (let uv_offset = H * W;
          y = take uv_offset img_yuv
      in case ravel_F2 (drop uv_offset img_yuv) of
           Inl e \<Rightarrow> Inl e
         | Inr uv \<Rightarrow> Inr (y @ uv))"

text \<open>The slice \<^verbatim>\<open>a[off::2]\<close> of \<^verbatim>\<open>extract_image\<close>: every second element from \<open>off\<close> on.\<close>

fun every_other :: "'a list \<Rightarrow> 'a list" where
  "every_other [] = []"
| "every_other [x] = [x]"
| "every_other (x # y # xs) = x # every_other xs"

definition slice2 :: "nat \<Rightarrow> 'a list \<Rightarrow> 'a list" where
  "slice2 off xs = every_other (drop off xs)"

subsection \<open>The loop body up to the decoded frame\<close>

text \<open>
  Lines 61 to 84 of the first script and 70 to 93 of the second, which agree:
  \<^verbatim>\<open>
  if debug and evta.idx.encodeId != 0 and evta.idx.encodeId != (last_idx + 1):
      print("DROP PACKET!")
  last_idx = evta.idx.encodeId
  if not seen_iframe and not (evta.idx.flags & V4L2_BUF_FLAG_KEYFRAME):
      if debug:
          print("waiting for iframe")
      continue
  time_q.append(time.monotonic())
  ...
  if not seen_iframe:
      codec.decode(av.packet.Packet(evta.header))
      seen_iframe = True
  frames = codec.decode(av.packet.Packet(evta.data))
  if len(frames) == 0:
      if debug:
          print("DROP SURFACE")
      continue
  assert len(frames) == 1
  \<close>
  The block ends with \<open>Proceed s f\<close> when exactly one frame \<open>f\<close> came back.
\<close>

definition gap_check :: "bool \<Rightarrow> int \<Rightarrow> packet \<Rightarrow> event list" where
  "gap_check debug li p =
     (if debug \<and> encodeId p \<noteq> 0 \<and> encodeId p \<noteq> li + 1 then [Print DropPacket] else [])"

definition waiting :: "bool \<Rightarrow> packet \<Rightarrow> bool" where
  "waiting seen p \<longleftrightarrow> \<not> seen \<and> flags p AND V4L2_BUF_FLAG_KEYFRAME = 0"

definition front ::
  "('c \<Rightarrow> bytes \<Rightarrow> 'c \<times> bytes list) \<Rightarrow> bool \<Rightarrow> ('c, 't, 'z) wstate_scheme \<Rightarrow> packet \<Rightarrow> 't env
     \<Rightarrow> event list \<times> (('c, 't, 'z) wstate_scheme, bytes) flow" where
  "front dec debug s p e =
     (let ev0 = gap_check debug (last_idx s) p;
          s1 = s\<lparr>last_idx := encodeId p\<rparr>
      in if waiting (seen_iframe s1) p
         then (ev0 @ (if debug then [Print WaitingForIframe] else []), Continue s1)
         else
           let s2 = s1\<lparr>time_q := time_q s1 @ [t_recv e]\<rparr>;
               ev1 = (if \<not> seen_iframe s2 then [DecodeHeader (header p)] else []);
               s3 = (if \<not> seen_iframe s2
                     then s2\<lparr>codec := fst (dec (codec s2) (header p)), seen_iframe := True\<rparr>
                     else s2);
               frames = snd (dec (codec s3) (data p));
               s4 = s3\<lparr>codec := fst (dec (codec s3) (data p))\<rparr>;
               ev2 = ev0 @ ev1 @ [DecodeData (data p) (length frames)]
           in case frames of
                [] \<Rightarrow> (ev2 @ (if debug then [Print DropSurface] else []), Continue s4)
              | [f] \<Rightarrow> (ev2, Proceed s4 f)
              | _ \<Rightarrow> (ev2, Raise AssertionError))"

subsection \<open>Publishing\<close>

text \<open>
  The packing followed by line 91 and 92 of the first script (109 and 110 of the second):
  \<^verbatim>\<open>
  vipc_server.send(vst, img_yuv.data, cnt, int(time_q[0] * 1e9), int(time.monotonic() * 1e9))
  cnt += 1
  \<close>
  \<^verbatim>\<open>time_q[0]\<close> raises \<^verbatim>\<open>IndexError\<close> on an empty list. The block proceeds with the
  packed image.
\<close>

definition publish ::
  "('t \<Rightarrow> int) \<Rightarrow> nat \<Rightarrow> nat \<Rightarrow> ('c, 't, 'z) wstate_scheme \<Rightarrow> 't env \<Rightarrow> bytes
     \<Rightarrow> event list \<times> (('c, 't, 'z) wstate_scheme, bytes) flow" where
  "publish ns W H s e f =
     (case pack W H f of
        Inl err \<Rightarrow> ([], Raise err)
      | Inr img \<Rightarrow>
          (case time_q s of
             [] \<Rightarrow> ([], Raise IndexError)
           | t0 # _ \<Rightarrow>
               ([Send img (cnt s) (ns t0) (ns (t_send e))], Proceed (s\<lparr>cnt := cnt s + 1\<rparr>) img)))"

text \<open>
  Lines 101 to 106 of the first script (112 to 117 of the second):
  \<^verbatim>\<open>
  pc_latency = (time.monotonic() - time_q[0]) * 1000
  time_q = time_q[1:]
  if debug:
      print(... evta.idx.encodeId ...)
  \<close>
\<close>

definition pop_latency ::
  "bool \<Rightarrow> ('c, 't, 'z) wstate_scheme \<Rightarrow> packet
     \<Rightarrow> event list \<times> (('c, 't, 'z) wstate_scheme, unit) flow" where
  "pop_latency debug s p =
     (case time_q s of
        [] \<Rightarrow> ([], Raise IndexError)
      | t0 # rest \<Rightarrow>
          ((if debug then [Print (Latency (encodeId p))] else []),
           Proceed (s\<lparr>time_q := rest\<rparr>) ()))"

subsection \<open>The display of the first script\<close>

text \<open>
  Lines 95 to 99 of the first script:
  \<^verbatim>\<open>
  yuv_frame = np.frombuffer(img_yuv.data, dtype=np.uint8).reshape((H * 3 // 2, W))
  bgr_frame = extract_image(yuv_frame)
  cv2.imshow(f"Stream {vst}", bgr_frame)
  if cv2.waitKey(1) & 0xFF == ord('q'):
      return
  \<close>
  The reshape of line 95 raises \<^verbatim>\<open>ValueError\<close> unless the packed image has
  \<open>(H * 3 div 2) * W\<close> bytes. Line 96 then calls \<^verbatim>\<open>extract_image\<close> on the numpy array,
  and the first thing that function evaluates (line 36) is
  \<^verbatim>\<open>buf.data[:buf.uv_offset]\<close>: a numpy array has no attribute \<^verbatim>\<open>uv_offset\<close>, so the
  call raises \<^verbatim>\<open>AttributeError\<close>. The display lines therefore always end the worker:
  \<^verbatim>\<open>cv2.imshow\<close>, the key test and its \<^verbatim>\<open>return\<close> are never reached, nor are the
  lines 101 to 108 behind them in the loop body.
\<close>

definition display :: "nat \<Rightarrow> nat \<Rightarrow> bytes \<Rightarrow> event list \<times> ('s, unit) flow" where
  "display W H img =
     (if length img \<noteq> (H * 3 div 2) * W then ([], Raise ValueError)
      else ([], Raise AttributeError))"

subsection \<open>The throttled forward of the second script\<close>

text \<open>
  Lines 96 to 101 of the second script, which stand before the packing:
  \<^verbatim>\<open>
  current_time = time.time()
  if current_time - last_capture_time >= 1:
      img_rgb = cv2.cvtColor(img_yuv, cv2.COLOR_YUV2BGR_I420)
      frame_queue.put((img_rgb, cnt))
      last_capture_time = current_time
  \<close>
\<close>

definition forward ::
  "('c, 't) wstate4 \<Rightarrow> 't env \<Rightarrow> bytes \<Rightarrow> event list \<times> ('c, 't) wstate4" where
  "forward s e f =
     (let current_time = wall e
      in if current_time - last_capture_time s \<ge> 1
         then ([Forward f (cnt s)], s\<lparr>last_capture_time := current_time\<rparr>)
         else ([], s))"

subsection \<open>One iteration of each script\<close>

definition step3 ::
  "('c \<Rightarrow> bytes \<Rightarrow> 'c \<times> bytes list) \<Rightarrow> ('t \<Rightarrow> int) \<Rightarrow> nat \<Rightarrow> nat \<Rightarrow> bool
     \<Rightarrow> ('c, 't) wstate \<Rightarrow> packet \<times> 't env \<Rightarrow> event list \<times> (stop + ('c, 't) wstate)" where
  "step3 dec ns W H debug s pe =
     (let p = fst pe; e = snd pe in
      case front dec debug s p e of
        (ev, Raise x) \<Rightarrow> (ev, Inl x)
      | (ev, Continue s1) \<Rightarrow> (ev, Inr s1)
      | (ev, Proceed s1 f) \<Rightarrow>
          (case publish ns W H s1 e f of
             (ev1, Raise x) \<Rightarrow> (ev @ ev1, Inl x)
           | (ev1, Continue s2) \<Rightarrow> (ev @ ev1, Inr s2)
           | (ev1, Proceed s2 img) \<Rightarrow>
               (case display W H img of
                  (ev2, Raise x) \<Rightarrow> (ev @ ev1 @ ev2, Inl x)
                | (ev2, Continue s3) \<Rightarrow> (ev @ ev1 @ ev2, Inr s3)
                | (ev2, Proceed s3 _) \<Rightarrow>
                    (case pop_latency debug s3 p of
                       (ev3, Raise x) \<Rightarrow> (ev @ ev1 @ ev2 @ ev3, Inl x)
                     | (ev3, Continue s4) \<Rightarrow> (ev @ ev1 @ ev2 @ ev3, Inr s4)
                     | (ev3, Proceed s4 _) \<Rightarrow> (ev @ ev1 @ ev2 @ ev3 @ [Sleep], Inr s4)))))"

definition step4 ::
  "('c \<Rightarrow> bytes \<Rightarrow> 'c \<times> bytes list) \<Rightarrow> ('t \<Rightarrow> int) \<Rightarrow> nat \<Rightarrow> nat \<Rightarrow> bool
     \<Rightarrow> ('c, 't) wstate4 \<Rightarrow> packet \<times> 't env \<Rightarrow> event list \<times> (stop + ('c, 't) wstate4)" where
  "step4 dec ns W H debug s pe =
     (let p = fst pe; e = snd pe in
      case front dec debug s p e of
        (ev, Raise x) \<Rightarrow> (ev, Inl x)
      | (ev, Continue s1) \<Rightarrow> (ev, Inr s1)
      | (ev, Proceed s1 f) \<Rightarrow>
          (let (ev1, s2) = forward s1 e f in
           case publish ns W H s2 e f of
             (ev2, Raise x) \<Rightarrow> (ev @ ev1 @ ev2, Inl x)
           | (ev2, Continue s3) \<Rightarrow> (ev @ ev1 @ ev2, Inr s3)
           | (ev2, Proceed s3 _) \<Rightarrow>
               (case pop_latency debug s3 p of
                  (ev3, Raise x) \<Rightarrow> (ev @ ev1 @ ev2 @ ev3, Inl x)
                | (ev3, Continue s4) \<Rightarrow> (ev @ ev1 @ ev2 @ ev3, Inr s4)
                | (ev3, Proceed s4 _) \<Rightarrow> (ev @ ev1 @ ev2 @ ev3, Inr s4))))"

subsection \<open>The loop\<close>

text \<open>
  \<^verbatim>\<open>while 1: msgs = messaging.drain_sock(sock, wait_for_one=True); for evt in msgs: ...\<close>
  The socket does not conflate, so the iterations see the packets one by one in arrival
  order; the batches only enter the debug line. The loop has no exit of its own: a run is
  taken over the packets delivered so far, and gives the events of each iteration begun
  and either the state reached (\<open>Inr\<close>) or the way the worker left the loop (\<open>Inl\<close>).
\<close>

fun run ::
  "('s \<Rightarrow> 'i \<Rightarrow> event list \<times> (stop + 's)) \<Rightarrow> 's \<Rightarrow> 'i list \<Rightarrow> event list list \<times> (stop + 's)" where
  "run step s [] = ([], Inr s)"
| "run step s (x # xs) =
     (case step s x of
        (ev, Inl err) \<Rightarrow> ([ev], Inl err)
      | (ev, Inr s1) \<Rightarrow> (case run step s1 xs of (evs, r) \<Rightarrow> (ev # evs, r)))"

definition decoder3 ::
  "('c \<Rightarrow> bytes \<Rightarrow> 'c \<times> bytes list) \<Rightarrow> ('t \<Rightarrow> int) \<Rightarrow> 'c \<Rightarrow> nat \<Rightarrow> nat \<Rightarrow> bool
     \<Rightarrow> (packet \<times> 't env) list \<Rightarrow> event list list \<times> (stop + ('c, 't) wstate)" where
  "decoder3 dec ns c W H debug msgs = run (step3 dec ns W H debug) (init3 c) msgs"

definition decoder4 ::
  "('c \<Rightarrow> bytes \<Rightarrow> 'c \<times> bytes list) \<Rightarrow> ('t \<Rightarrow> int) \<Rightarrow> 'c \<Rightarrow> real \<Rightarrow> nat \<Rightarrow> nat \<Rightarrow> bool
     \<Rightarrow> (packet \<times> 't env) list \<Rightarrow> event list list \<times> (stop + ('c, 't) wstate4)" where
  "decoder4 dec ns c t0 W H debug msgs = run (step4 dec ns W H debug) (init4 c t0) msgs"

subsection \<open>Reading a trace\<close>

fun is_print :: "event \<Rightarrow> bool" where
  "is_print (Print _) = True"
| "is_print _ = False"

fun is_header :: "event \<Rightarrow> bool" where
  "is_header (DecodeHeader _) = True"
| "is_header _ = False"

fun is_send :: "event \<Rightarrow> bool" where
  "is_send (Send _ _ _ _) = True"
| "is_send _ = False"

text \<open>The calls of an iteration: its events without the debug output.\<close>

definition calls :: "event list \<Rightarrow> event list" where
  "calls evs = filter (\<lambda>x. \<not> is_print x) evs"

definition sends :: "event list \<Rightarrow> event list" where
  "sends evs = filter is_send evs"

subsection \<open>Iterations in closed form\<close>

text \<open>
  Names for what an iteration computes from the state it starts in: the codec state
  that receives the data bytes, the frames that come back, the state after the
  bookkeeping of an accepted packet, the state after a publish, and the events.
\<close>

definition codec_at_data :: "('c \<Rightarrow> bytes \<Rightarrow> 'c \<times> bytes list) \<Rightarrow> ('c, 't, 'z) wstate_scheme \<Rightarrow> packet \<Rightarrow> 'c" where
  "codec_at_data dec s p = (if seen_iframe s then codec s else fst (dec (codec s) (header p)))"

definition decoded :: "('c \<Rightarrow> bytes \<Rightarrow> 'c \<times> bytes list) \<Rightarrow> ('c, 't, 'z) wstate_scheme \<Rightarrow> packet \<Rightarrow> bytes list" where
  "decoded dec s p = snd (dec (codec_at_data dec s p) (data p))"

definition accepted :: "('c \<Rightarrow> bytes \<Rightarrow> 'c \<times> bytes list) \<Rightarrow> ('c, 't, 'z) wstate_scheme \<Rightarrow> packet \<Rightarrow> 't env \<Rightarrow> ('c, 't, 'z) wstate_scheme" where
  "accepted dec s p e = s\<lparr>last_idx := encodeId p, time_q := time_q s @ [t_recv e],
      codec := fst (dec (codec_at_data dec s p) (data p)), seen_iframe := True\<rparr>"

definition front_events :: "('c \<Rightarrow> bytes \<Rightarrow> 'c \<times> bytes list) \<Rightarrow> bool \<Rightarrow> ('c, 't, 'z) wstate_scheme \<Rightarrow> packet \<Rightarrow> event list" where
  "front_events dec debug s p = gap_check debug (last_idx s) p @ (if seen_iframe s then [] else [DecodeHeader (header p)])
      @ [DecodeData (data p) (length (decoded dec s p))]"

definition wait_events :: "bool \<Rightarrow> ('c, 't, 'z) wstate_scheme \<Rightarrow> packet \<Rightarrow> event list" where
  "wait_events debug s p = gap_check debug (last_idx s) p @ (if debug then [Print WaitingForIframe] else [])"

definition latency_events :: "bool \<Rightarrow> packet \<Rightarrow> event list" where
  "latency_events debug p = (if debug then [Print (Latency (encodeId p))] else [])"

definition the_send :: "('t \<Rightarrow> int) \<Rightarrow> ('c, 't, 'z) wstate_scheme \<Rightarrow> 't env \<Rightarrow> bytes \<Rightarrow> event" where
  "the_send ns s e img = Send img (cnt s) (ns (hd (time_q s @ [t_recv e]))) (ns (t_send e))"

definition published :: "('c \<Rightarrow> bytes \<Rightarrow> 'c \<times> bytes list) \<Rightarrow> ('c, 't, 'z) wstate_scheme \<Rightarrow> packet \<Rightarrow> 't env \<Rightarrow> ('c, 't, 'z) wstate_scheme" where
  "published dec s p e = (accepted dec s p e)\<lparr>cnt := cnt s + 1, time_q := tl (time_q s @ [t_recv e])\<rparr>"

definition forward_events :: "('c, 't) wstate4 \<Rightarrow> 't env \<Rightarrow> bytes \<Rightarrow> event list" where
  "forward_events s e f = (if wall e - last_capture_time s \<ge> 1 then [Forward f (cnt s)] else [])"

definition forwarded_time :: "('c, 't) wstate4 \<Rightarrow> 't env \<Rightarrow> real" where
  "forwarded_time s e = (if wall e - last_capture_time s \<ge> 1 then wall e else last_capture_time s)"

text \<open>The test of line 65 on the packet alone, and the queue after line 69.\<close>

definition keyframe :: "packet \<Rightarrow> bool" where
  "keyframe p \<longleftrightarrow> flags p AND V4L2_BUF_FLAG_KEYFRAME \<noteq> 0"

definition pushed :: "('c, 't, 'z) wstate_scheme \<Rightarrow> packet \<Rightarrow> 't env \<Rightarrow> 't list" where
  "pushed s p e = (if waiting (seen_iframe s) p then time_q s else time_q s @ [t_recv e])"

subsection \<open>Concrete inputs\<close>

text \<open>
  A codec for the examples: its state counts the calls, the first byte of the bytes it
  is given says how many frames come back, and the rest is the frame. \<open>frame42\<close> is a
  4 by 2 frame: eight luma bytes, the U plane \<open>[20, 21]\<close> and the V plane \<open>[30, 31]\<close>.
  Clock readings are integers, with the identity as \<open>ns\<close>. \<open>streaming3\<close> and
  \<open>streaming4\<close> are states that the two scripts reach after the keyframe, with one
  receipt time waiting in the queue.
\<close>

definition count_dec :: "nat \<Rightarrow> bytes \<Rightarrow> nat \<times> bytes list" where
  "count_dec c d = (Suc c, case d of [] \<Rightarrow> [] | n # f \<Rightarrow> replicate (unat n) f)"

definition frame42 :: bytes where
  "frame42 = [10, 11, 12, 13, 14, 15, 16, 17, 20, 21, 30, 31]"

definition packed42 :: bytes where
  "packed42 = [10, 11, 12, 13, 14, 15, 16, 17, 20, 30, 21, 31]"

definition pkt :: "int \<Rightarrow> int \<Rightarrow> byte \<Rightarrow> packet" where
  "pkt i fl n = \<lparr>encodeId = i, flags = fl, header = [0], data = n # frame42\<rparr>"

definition tick :: "int \<Rightarrow> real \<Rightarrow> int env" where
  "tick t w = \<lparr>t_recv = t, t_send = t + 1, wall = w\<rparr>"

definition streaming3 :: "(nat, int) wstate" where
  "streaming3 = \<lparr>cnt = 0, last_idx = 7, seen_iframe = True, time_q = [50], codec = 2\<rparr>"

definition streaming4 :: "(nat, int) wstate4" where
  "streaming4 = \<lparr>cnt = 3, last_idx = 7, seen_iframe = True, time_q = [50], codec = 5,
     last_capture_time = 0\<rparr>"

subsection \<open>Reading a run\<close>

text \<open>
  What a trace says: the frame indices, the capture and publish timestamps of the sends,
  and the frame counts of the data decodes, each in order. The accepted packets of a
  list are those from the first keyframe on (all of them once a keyframe was seen).
  \<open>iteration\<close> collects what the two scripts have in common in one iteration.
\<close>

fun frame_indices :: "event list \<Rightarrow> int list" where
  "frame_indices [] = []"
| "frame_indices (Send _ i _ _ # evs) = i # frame_indices evs"
| "frame_indices (_ # evs) = frame_indices evs"

fun capture_stamps :: "event list \<Rightarrow> int list" where
  "capture_stamps [] = []"
| "capture_stamps (Send _ _ c _ # evs) = c # capture_stamps evs"
| "capture_stamps (_ # evs) = capture_stamps evs"

fun publish_stamps :: "event list \<Rightarrow> int list" where
  "publish_stamps [] = []"
| "publish_stamps (Send _ _ _ t # evs) = t # publish_stamps evs"
| "publish_stamps (_ # evs) = publish_stamps evs"

fun decode_counts :: "event list \<Rightarrow> nat list" where
  "decode_counts [] = []"
| "decode_counts (DecodeData _ n # evs) = n # decode_counts evs"
| "decode_counts (_ # evs) = decode_counts evs"

definition accepted_msgs :: "bool \<Rightarrow> (packet \<times> 'e) list \<Rightarrow> (packet \<times> 'e) list" where
  "accepted_msgs seen msgs = (if seen then msgs else dropWhile (\<lambda>x. \<not> keyframe (fst x)) msgs)"

definition iteration ::
  "('t \<Rightarrow> int) \<Rightarrow> ('c, 't, 'z) wstate_scheme \<Rightarrow> packet \<times> 't env
     \<Rightarrow> event list \<times> (stop + ('c, 't, 'z) wstate_scheme) \<Rightarrow> bool" where
  "iteration ns s x out \<longleftrightarrow>
     (let p = fst x; e = snd x; ev = fst out; r = snd out in
      if waiting (seen_iframe s) p
      then calls ev = [] \<and> r = Inr (s\<lparr>last_idx := encodeId p\<rparr>)
      else filter is_header ev = (if seen_iframe s then [] else [DecodeHeader (header p)])
         \<and> ((decode_counts ev = [0] \<and> sends ev = []
               \<and> (\<exists>s'. r = Inr s' \<and> cnt s' = cnt s \<and> time_q s' = time_q s @ [t_recv e] \<and> seen_iframe s'))
           \<or> (decode_counts ev = [1] \<and> sends ev = [] \<and> r = Inl ValueError)
           \<or> ((\<exists>n. decode_counts ev = [Suc (Suc n)]) \<and> sends ev = [] \<and> r = Inl AssertionError)
           \<or> (decode_counts ev = [1]
               \<and> (\<exists>img. sends ev = [Send img (cnt s) (ns (hd (time_q s @ [t_recv e]))) (ns (t_send e))])
               \<and> (r = Inl AttributeError \<or> r = Inl ValueError
                  \<or> (\<exists>s'. r = Inr s' \<and> cnt s' = cnt s + 1 \<and> time_q s' = tl (time_q s @ [t_recv e])
                        \<and> seen_iframe s')))))"

text \<open>
  What holds of a run from state \<open>s\<close> over the packets it has begun to process: the
  frame indices count up from \<open>cnt s\<close>, the capture timestamps are the front of the queue
  followed by the receipt times of the accepted packets, each accepted packet has one
  data decode, and a state reached has counted and popped once per send.
\<close>

definition run_facts ::
  "('t \<Rightarrow> int) \<Rightarrow> ('c, 't, 'z) wstate_scheme \<Rightarrow> (packet \<times> 't env) list \<Rightarrow> event list list
     \<Rightarrow> stop + ('c, 't, 'z) wstate_scheme \<Rightarrow> bool" where
  "run_facts ns s msgs tr r \<longleftrightarrow>
     (let m = length (sends (concat tr));
          stamps = time_q s @ map (t_recv \<circ> snd) (accepted_msgs (seen_iframe s) msgs)
      in frame_indices (concat tr) = map (\<lambda>i. cnt s + int i) [0..<m]
       \<and> capture_stamps (concat tr) = map ns (take m stamps)
       \<and> m \<le> length stamps
       \<and> length (decode_counts (concat tr)) = length (accepted_msgs (seen_iframe s) msgs)
       \<and> (r \<noteq> Inl AssertionError \<and> r \<noteq> Inl ValueError \<longrightarrow>
            m + length (filter (\<lambda>n. n = 0) (decode_counts (concat tr)))
              = length (decode_counts (concat tr)))
       \<and> (\<forall>s'. r = Inr s' \<longrightarrow> cnt s' = cnt s + int m \<and> time_q s' = drop m stamps))"

text \<open>The number of data decodes of a trace that gave no frame, and some packet lists.\<close>

definition zero_decodes :: "event list \<Rightarrow> nat" where
  "zero_decodes evs = length (filter (\<lambda>n. n = 0) (decode_counts evs))"

definition msgs4 :: "(packet \<times> int env) list" where
  "msgs4 = [(pkt 4 0 1, tick 10 0), (pkt 5 8 1, tick 20 0), (pkt 9 0 0, tick 30 2), (pkt 10 0 1, tick 40 3)]"

definition msgs_two :: "(packet \<times> int env) list" where
  "msgs_two = [(pkt 5 8 1, tick 20 0), (pkt 6 0 2, tick 30 0)]"

definition msgs_many :: "(packet \<times> int env) list" where
  "msgs_many = [(pkt 5 8 2, tick 20 0)]"

definition msgs_one :: "(packet \<times> int env) list" where
  "msgs_one = [(pkt 5 8 1, tick 20 0)]"

definition msgs_skip :: "(packet \<times> int env) list" where
  "msgs_skip = [(pkt 4 0 1, tick 10 0), (pkt 5 8 0, tick 20 0), (pkt 6 0 1, tick 30 0)]"

text \<open>
  A stream with other \<^verbatim>\<open>encodeId\<close> values, and a result without its \<open>last_idx\<close>.
\<close>

definition renumber :: "int list \<Rightarrow> (packet \<times> 'e) list \<Rightarrow> (packet \<times> 'e) list" where
  "renumber ids msgs = map (\<lambda>(i, x). ((fst x)\<lparr>encodeId := i\<rparr>, snd x)) (zip ids msgs)"

definition forget_idx ::
  "stop + ('c, 't, 'z) wstate_scheme \<Rightarrow> stop + ('c, 't, 'z) wstate_scheme" where
  "forget_idx r = (case r of Inl err \<Rightarrow> Inl err | Inr s \<Rightarrow> Inr (s\<lparr>last_idx := 0\<rparr>))"

text \<open>
  The forwards of an iteration, the wall-clock readings of the iterations of a run
  that forwarded, and a stream with readings half a second and a
  second and a half apart.
\<close>

fun is_forward :: "event \<Rightarrow> bool" where
  "is_forward (Forward _ _) = True"
| "is_forward _ = False"

definition forwards :: "event list \<Rightarrow> event list" where
  "forwards evs = filter is_forward evs"

fun forward_walls :: "(packet \<times> 't env) list \<Rightarrow> event list list \<Rightarrow> real list" where
  "forward_walls (x # xs) (ev # tr) =
     (if forwards ev \<noteq> [] then [wall (snd x)] else []) @ forward_walls xs tr"
| "forward_walls _ _ = []"

definition msgs_wall :: "(packet \<times> int env) list" where
  "msgs_wall = [(pkt 5 8 1, tick 20 1), (pkt 6 0 1, tick 30 (3 / 2)), (pkt 7 0 1, tick 40 (5 / 2))]"

section \<open>Properties of the packing\<close>

lemma every_other_interleave:
  "length us = length vs \<Longrightarrow> every_other (interleave us vs) = us"
  by (induction us vs rule: list_induct2) (simp_all add: interleave_def)

lemma every_other_tl_interleave:
  "length us = length vs \<Longrightarrow> every_other (drop 1 (interleave us vs)) = vs"
proof (induction us vs rule: list_induct2)
  case Nil
  then show ?case by (simp add: interleave_def)
next
  case (Cons u us v vs)
  then show ?case
    by (cases us; cases vs) (simp_all add: interleave_def)
qed

lemma length_interleave:
  "length us = length vs \<Longrightarrow> length (interleave us vs) = 2 * length us"
  by (induction us vs rule: list_induct2) (simp_all add: interleave_def)

lemma ravel_F2_planes:
  "length us = length vs \<Longrightarrow> ravel_F2 (us @ vs) = Inr (interleave us vs)"
  by (simp add: ravel_F2_def)

lemma pack_planes:
  assumes "length y = W * H" and "length u = length v"
  shows "pack W H (y @ u @ v) = Inr (y @ interleave u v)"
  using assms by (simp add: pack_def ravel_F2_planes mult.commute)

section \<open>One iteration\<close>

lemma front_waiting:
  "waiting (seen_iframe s) p \<Longrightarrow> front dec debug s p e =
     (wait_events debug s p, Continue (s\<lparr>last_idx := encodeId p\<rparr>))"
  by (simp add: front_def wait_events_def)

lemma front_accept:
  "\<not> waiting (seen_iframe s) p \<Longrightarrow> front dec debug s p e =
     (case decoded dec s p of
        [] \<Rightarrow> (front_events dec debug s p @ (if debug then [Print DropSurface] else []), Continue (accepted dec s p e))
      | [f] \<Rightarrow> (front_events dec debug s p, Proceed (accepted dec s p e) f)
      | _ \<Rightarrow> (front_events dec debug s p, Raise AssertionError))"
  by (auto simp add: front_def Let_def decoded_def codec_at_data_def accepted_def front_events_def split: list.splits)

lemma publish_accepted:
  "publish ns W H (accepted dec s p e) e' f =
     (case pack W H f of Inl err \<Rightarrow> ([], Raise err)
      | Inr img \<Rightarrow> ([Send img (cnt s) (ns (hd (time_q s @ [t_recv e]))) (ns (t_send e'))],
           Proceed ((accepted dec s p e)\<lparr>cnt := cnt s + 1\<rparr>) img))"
  by (cases "time_q s") (simp_all add: publish_def accepted_def split: sum.splits)

lemma pop_latency_accepted:
  "pop_latency debug ((accepted dec s p e)\<lparr>cnt := n\<rparr>) p' =
     (latency_events debug p', Proceed ((accepted dec s p e)\<lparr>cnt := n, time_q := tl (time_q s @ [t_recv e])\<rparr>) ())"
  by (cases "time_q s") (simp_all add: pop_latency_def accepted_def latency_events_def)

lemma step3_waiting:
  "waiting (seen_iframe s) p \<Longrightarrow> step3 dec ns W H debug s (p, e) =
     (wait_events debug s p, Inr (s\<lparr>last_idx := encodeId p\<rparr>))"
  by (simp add: step3_def front_waiting)

lemma step3_accept:
  "\<not> waiting (seen_iframe s) p \<Longrightarrow> step3 dec ns W H debug s (p, e) =
     (case decoded dec s p of
        [] \<Rightarrow> (front_events dec debug s p @ (if debug then [Print DropSurface] else []), Inr (accepted dec s p e))
      | [f] \<Rightarrow>
          (case pack W H f of
             Inl err \<Rightarrow> (front_events dec debug s p, Inl err)
           | Inr img \<Rightarrow>
               (front_events dec debug s p @ [the_send ns s e img],
                Inl (if length img \<noteq> (H * 3 div 2) * W then ValueError else AttributeError)))
      | _ \<Rightarrow> (front_events dec debug s p, Inl AssertionError))"
  by (simp add: step3_def front_accept publish_accepted display_def
        the_send_def split: list.splits sum.splits)

lemma forward_accepted:
  "forward (accepted dec s p e) e' f =
     (forward_events s e' f, (accepted dec s p e)\<lparr>last_capture_time := forwarded_time s e'\<rparr>)"
  by (simp add: forward_def forward_events_def forwarded_time_def accepted_def)

lemma publish_accepted4:
  "publish ns W H ((accepted dec s p e)\<lparr>last_capture_time := x\<rparr>) e' f =
     (case pack W H f of Inl err \<Rightarrow> ([], Raise err)
      | Inr img \<Rightarrow> ([Send img (cnt s) (ns (hd (time_q s @ [t_recv e]))) (ns (t_send e'))],
           Proceed ((accepted dec s p e)\<lparr>last_capture_time := x, cnt := cnt s + 1\<rparr>) img))"
  by (cases "time_q s") (simp_all add: publish_def accepted_def split: sum.splits)

lemma pop_latency_accepted4:
  "pop_latency debug ((accepted dec s p e)\<lparr>last_capture_time := x, cnt := n\<rparr>) p' =
     (latency_events debug p',
      Proceed ((accepted dec s p e)\<lparr>last_capture_time := x, cnt := n, time_q := tl (time_q s @ [t_recv e])\<rparr>) ())"
  by (cases "time_q s") (simp_all add: pop_latency_def accepted_def latency_events_def)

lemma step4_waiting:
  "waiting (seen_iframe s) p \<Longrightarrow> step4 dec ns W H debug s (p, e) =
     (wait_events debug s p, Inr (s\<lparr>last_idx := encodeId p\<rparr>))"
  by (simp add: step4_def front_waiting)

lemma step4_accept:
  "\<not> waiting (seen_iframe s) p \<Longrightarrow> step4 dec ns W H debug s (p, e) =
     (case decoded dec s p of
        [] \<Rightarrow> (front_events dec debug s p @ (if debug then [Print DropSurface] else []), Inr (accepted dec s p e))
      | [f] \<Rightarrow>
          (case pack W H f of
             Inl err \<Rightarrow> (front_events dec debug s p @ forward_events s e f, Inl err)
           | Inr img \<Rightarrow>
               (front_events dec debug s p @ forward_events s e f @ [the_send ns s e img]
                  @ latency_events debug p,
                Inr ((published dec s p e)\<lparr>last_capture_time := forwarded_time s e\<rparr>)))
      | _ \<Rightarrow> (front_events dec debug s p, Inl AssertionError))"
  by (simp add: step4_def front_accept forward_accepted publish_accepted4 pop_latency_accepted4
        the_send_def published_def split: list.splits sum.splits option.splits)

lemma run_append:
  "run step s (xs @ ys) =
     (case run step s xs of
        (evs, Inl err) \<Rightarrow> (evs, Inl err)
      | (evs, Inr s1) \<Rightarrow> (case run step s1 ys of (evs1, r) \<Rightarrow> (evs @ evs1, r)))"
  by (induction xs arbitrary: s) (auto split: prod.splits sum.splits)

lemma length_run_le: "run step s xs = (evs, r) \<Longrightarrow> length evs \<le> length xs"
  by (induction xs arbitrary: s evs r) (fastforce split: prod.splits sum.splits)+

lemma length_run_Inr: "run step s xs = (evs, Inr s1) \<Longrightarrow> length evs = length xs"
  by (induction xs arbitrary: s evs) (auto split: prod.splits sum.splits)

lemmas example_defs = count_dec_def frame42_def packed42_def pkt_def tick_def streaming3_def streaming4_def
  init3_def init4_def

lemmas step_defs = step3_def step4_def front_def publish_def pop_latency_def display_def forward_def
  gap_check_def waiting_def V4L2_BUF_FLAG_KEYFRAME_def pack_def ravel_F2_def interleave_def

lemma sends_simps [simp]:
  "sends [] = []" "sends (Print m # evs) = sends evs" "sends (DecodeHeader h # evs) = sends evs"
  "sends (DecodeData d n # evs) = sends evs" "sends (Send i c a b # evs) = Send i c a b # sends evs"
  "sends (Forward f c # evs) = sends evs" "sends (Sleep # evs) = sends evs"
  "sends (xs @ ys) = sends xs @ sends ys"
  by (simp_all add: sends_def)

lemma sends_front_events [simp]: "sends (front_events dec debug s p) = []"
  by (simp add: front_events_def gap_check_def)

lemma sends_wait_events [simp]: "sends (wait_events debug s p) = []"
  by (simp add: wait_events_def gap_check_def)

lemma sends_latency_events [simp]: "sends (latency_events debug p) = []"
  by (simp add: latency_events_def)

lemma sends_forward_events [simp]: "sends (forward_events s e f) = []"
  by (simp add: forward_events_def)

lemma sends_the_send [simp]: "sends (the_send ns s e img # evs) = the_send ns s e img # sends evs"
  by (simp add: the_send_def)

section \<open>Dropped surfaces and the single-frame assertion\<close>

text \<open>
  The example states are reached from the start: in the first script by a keyframe packet
  whose decode gives no frame, in the second by three published packets and one whose
  decode gives no frame.
\<close>

lemma streaming3_reached:
  "snd (decoder3 count_dec id 0 4 2 False [(pkt 7 8 0, tick 50 0)]) = Inr streaming3"
  by code_simp

lemma streaming4_reached:
  "snd (decoder4 count_dec id 0 0 4 2 False
     [(pkt 4 8 1, tick 10 0), (pkt 5 0 1, tick 20 0), (pkt 6 0 1, tick 30 0), (pkt 7 0 0, tick 50 0)])
     = Inr streaming4"
  by code_simp

text \<open>
  C4. An accepted packet whose decode gives no frame ends its iteration at the
  \<^verbatim>\<open>continue\<close> of line 83: nothing is sent, the counter keeps its value, the queue is
  the old queue with the packet's receipt time at its end (nothing is popped), and the
  loop goes on (the result is a state, not a stop). Both scripts.
\<close>

theorem zero_frames_skip:
  fixes s :: "('c, 't) wstate" and u :: "('c, 't) wstate4"
  assumes "\<not> waiting (seen_iframe s) p" and "decoded dec s p = []"
    and "\<not> waiting (seen_iframe u) p" and "decoded dec u p = []"
  shows "sends (fst (step3 dec ns W H debug s (p, e))) = []
       \<and> (\<exists>s'. snd (step3 dec ns W H debug s (p, e)) = Inr s' \<and> cnt s' = cnt s
                \<and> time_q s' = time_q s @ [t_recv e])
       \<and> sends (fst (step4 dec ns W H debug u (p, e))) = []
       \<and> (\<exists>u'. snd (step4 dec ns W H debug u (p, e)) = Inr u' \<and> cnt u' = cnt u
                \<and> time_q u' = time_q u @ [t_recv e])"
  using assms by (simp add: step3_accept step4_accept accepted_def)

theorem zero_frames_skip_witness:
  "sends (fst (step3 count_dec id 4 2 False streaming3 (pkt 8 0 0, tick 60 0))) = []
   \<and> (\<exists>s'. snd (step3 count_dec id 4 2 False streaming3 (pkt 8 0 0, tick 60 0)) = Inr s'
          \<and> cnt s' = 0 \<and> time_q s' = [50, 60])
   \<and> sends (fst (step4 count_dec id 4 2 False streaming4 (pkt 8 0 0, tick 60 0))) = []
   \<and> (\<exists>u'. snd (step4 count_dec id 4 2 False streaming4 (pkt 8 0 0, tick 60 0)) = Inr u'
          \<and> cnt u' = 3 \<and> time_q u' = [50, 60])"
proof -
  have a: "\<not> waiting (seen_iframe streaming3) (pkt 8 0 0)"
    by (simp add: waiting_def streaming3_def)
  have b: "decoded count_dec streaming3 (pkt 8 0 0) = []"
    by (simp add: decoded_def codec_at_data_def example_defs)
  have c: "\<not> waiting (seen_iframe streaming4) (pkt 8 0 0)"
    by (simp add: waiting_def streaming4_def)
  have d: "decoded count_dec streaming4 (pkt 8 0 0) = []"
    by (simp add: decoded_def codec_at_data_def example_defs)
  show ?thesis
    using zero_frames_skip [OF a b c d, of id 4 2 False "tick 60 0"]
    by (simp add: example_defs)
qed

text \<open>
  C5. An accepted packet whose decode gives more than one frame fails the assertion of
  line 84: the worker stops with \<open>AssertionError\<close> and nothing is sent. An accepted
  packet with a frame count other than one lets the loop go on only when the count is
  zero. Both scripts.
\<close>

theorem many_frames_abort:
  fixes s :: "('c, 't) wstate" and u :: "('c, 't) wstate4"
  assumes "\<not> waiting (seen_iframe s) p" and "\<not> waiting (seen_iframe u) p"
  shows "(1 < length (decoded dec s p) \<longrightarrow>
            sends (fst (step3 dec ns W H debug s (p, e))) = []
          \<and> snd (step3 dec ns W H debug s (p, e)) = Inl AssertionError)
       \<and> (length (decoded dec s p) \<noteq> 1 \<and> (\<exists>s'. snd (step3 dec ns W H debug s (p, e)) = Inr s') \<longrightarrow>
            decoded dec s p = [])
       \<and> (1 < length (decoded dec u p) \<longrightarrow>
            sends (fst (step4 dec ns W H debug u (p, e))) = []
          \<and> snd (step4 dec ns W H debug u (p, e)) = Inl AssertionError)
       \<and> (length (decoded dec u p) \<noteq> 1 \<and> (\<exists>u'. snd (step4 dec ns W H debug u (p, e)) = Inr u') \<longrightarrow>
            decoded dec u p = [])"
  using assms
  by (cases "decoded dec s p"; cases "tl (decoded dec s p)"; cases "decoded dec u p"; cases "tl (decoded dec u p)")
     (auto simp add: step3_accept step4_accept split: list.splits)


theorem many_frames_abort_witness:
  "sends (fst (step3 count_dec id 4 2 False streaming3 (pkt 8 0 2, tick 60 0))) = []
   \<and> snd (step3 count_dec id 4 2 False streaming3 (pkt 8 0 2, tick 60 0)) = Inl AssertionError
   \<and> sends (fst (step4 count_dec id 4 2 False streaming4 (pkt 8 0 2, tick 60 0))) = []
   \<and> snd (step4 count_dec id 4 2 False streaming4 (pkt 8 0 2, tick 60 0)) = Inl AssertionError
   \<and> decoded count_dec streaming3 (pkt 8 0 0) = []
   \<and> decoded count_dec streaming4 (pkt 8 0 0) = []"
proof -
  have a: "\<not> waiting (seen_iframe streaming3) p" and b: "\<not> waiting (seen_iframe streaming4) p" for p
    by (simp_all add: waiting_def streaming3_def streaming4_def)
  have two: "1 < length (decoded count_dec streaming3 (pkt 8 0 2))"
    "1 < length (decoded count_dec streaming4 (pkt 8 0 2))"
    by (simp_all add: decoded_def codec_at_data_def example_defs)
  have zero: "length (decoded count_dec streaming3 (pkt 8 0 0)) \<noteq> 1"
    "length (decoded count_dec streaming4 (pkt 8 0 0)) \<noteq> 1"
    by (simp_all add: decoded_def codec_at_data_def example_defs)
  have run3: "\<exists>s'. snd (step3 count_dec id 4 2 False streaming3 (pkt 8 0 0, tick 60 0)) = Inr s'"
    by (simp add: step_defs example_defs)
  have run4: "\<exists>s'. snd (step4 count_dec id 4 2 False streaming4 (pkt 8 0 0, tick 60 0)) = Inr s'"
    by (simp add: step_defs example_defs)
  show ?thesis
    using many_frames_abort [where s = streaming3 and u = streaming4 and p = "pkt 8 0 2"
        and dec = count_dec and ns = id and W = 4 and H = 2 and debug = False and e = "tick 60 0"]
      many_frames_abort [where s = streaming3 and u = streaming4 and p = "pkt 8 0 0"
        and dec = count_dec and ns = id and W = 4 and H = 2 and debug = False and e = "tick 60 0"]
      a b two zero run3 run4
    by blast
qed

section \<open>Runs\<close>

lemma frame_indices_append [simp]: "frame_indices (xs @ ys) = frame_indices xs @ frame_indices ys"
  by (induction xs rule: frame_indices.induct) simp_all

lemma capture_stamps_append [simp]: "capture_stamps (xs @ ys) = capture_stamps xs @ capture_stamps ys"
  by (induction xs rule: capture_stamps.induct) simp_all

lemma publish_stamps_append [simp]: "publish_stamps (xs @ ys) = publish_stamps xs @ publish_stamps ys"
  by (induction xs rule: publish_stamps.induct) simp_all

lemma decode_counts_append [simp]: "decode_counts (xs @ ys) = decode_counts xs @ decode_counts ys"
  by (induction xs rule: decode_counts.induct) simp_all

lemma frame_indices_sends: "frame_indices (sends evs) = frame_indices evs"
  by (induction evs rule: frame_indices.induct) simp_all

lemma capture_stamps_sends: "capture_stamps (sends evs) = capture_stamps evs"
  by (induction evs rule: capture_stamps.induct) simp_all

lemma publish_stamps_sends: "publish_stamps (sends evs) = publish_stamps evs"
  by (induction evs rule: publish_stamps.induct) simp_all

lemma length_frame_indices: "length (frame_indices evs) = length (sends evs)"
  by (induction evs rule: frame_indices.induct) simp_all

lemma length_capture_stamps: "length (capture_stamps evs) = length (sends evs)"
  by (induction evs rule: capture_stamps.induct) simp_all

lemma calls_simps [simp]:
  "calls [] = []" "calls (Print m # evs) = calls evs" "calls (DecodeHeader h # evs) = DecodeHeader h # calls evs"
  "calls (DecodeData d n # evs) = DecodeData d n # calls evs" "calls (Send i c a b # evs) = Send i c a b # calls evs"
  "calls (Forward f c # evs) = Forward f c # calls evs"
  "calls (Sleep # evs) = Sleep # calls evs"
  "calls (xs @ ys) = calls xs @ calls ys"
  by (simp_all add: calls_def)

lemma calls_gap_check [simp]: "calls (gap_check debug l p) = []"
  by (simp add: gap_check_def)

lemma calls_wait_events [simp]: "calls (wait_events debug s p) = []"
  by (simp add: wait_events_def)

lemma calls_latency_events [simp]: "calls (latency_events debug p) = []"
  by (simp add: latency_events_def)

lemma headers_gap_check [simp]: "filter is_header (gap_check debug l p) = []"
  by (simp add: gap_check_def)

lemma headers_front_events [simp]:
  "filter is_header (front_events dec debug s p) = (if seen_iframe s then [] else [DecodeHeader (header p)])"
  by (simp add: front_events_def)

lemma headers_latency_events [simp]: "filter is_header (latency_events debug p) = []"
  by (simp add: latency_events_def)

lemma headers_forward_events [simp]: "filter is_header (forward_events s e f) = []"
  by (simp add: forward_events_def)

lemma decode_counts_gap_check [simp]: "decode_counts (gap_check debug l p) = []"
  by (simp add: gap_check_def)

lemma decode_counts_front_events [simp]:
  "decode_counts (front_events dec debug s p) = [length (decoded dec s p)]"
  by (simp add: front_events_def)

lemma decode_counts_latency_events [simp]: "decode_counts (latency_events debug p) = []"
  by (simp add: latency_events_def)

lemma decode_counts_forward_events [simp]: "decode_counts (forward_events s e f) = []"
  by (simp add: forward_events_def)

lemma pack_Inl: "pack W H f = Inl x \<Longrightarrow> x = ValueError"
  by (auto simp add: pack_def ravel_F2_def Let_def split: if_splits sum.splits)

lemma iteration_step3: "iteration ns s x (step3 dec ns W H debug s x)"
proof (cases x)
  case (Pair p e)
  show ?thesis
  proof (cases "waiting (seen_iframe s) p")
    case True
    then show ?thesis by (simp add: Pair iteration_def step3_waiting)
  next
    case False
    then show ?thesis
      by (auto simp add: Pair iteration_def step3_accept the_send_def published_def accepted_def
            dest: pack_Inl split: list.splits sum.splits option.splits)
  qed
qed

lemma iteration_step4: "iteration ns s x (step4 dec ns W H debug s x)"
proof (cases x)
  case (Pair p e)
  show ?thesis
  proof (cases "waiting (seen_iframe s) p")
    case True
    then show ?thesis by (simp add: Pair iteration_def step4_waiting)
  next
    case False
    then show ?thesis
      by (auto simp add: Pair iteration_def step4_accept the_send_def published_def accepted_def
            dest: pack_Inl split: list.splits sum.splits option.splits)
  qed
qed

lemma waiting_iff: "waiting seen p \<longleftrightarrow> \<not> seen \<and> \<not> keyframe p"
  by (simp add: waiting_def keyframe_def)

lemma run_waiting:
  assumes step: "\<And>s x. iteration ns s x (step s x)"
  assumes "\<not> seen_iframe s" and "\<forall>x\<in>set ds. \<not> keyframe (fst x)"
  shows "\<exists>tr. run step s ds =
            (tr, Inr (s\<lparr>last_idx := (if ds = [] then last_idx s else encodeId (fst (last ds)))\<rparr>))
          \<and> length tr = length ds \<and> (\<forall>ev\<in>set tr. calls ev = [])"
  using assms(2,3)
proof (induction ds arbitrary: s)
  case Nil
  then show ?case by simp
next
  case (Cons x ds)
  have w: "waiting (seen_iframe s) (fst x)"
    using Cons.prems by (simp add: waiting_iff)
  obtain ev where ev: "step s x = (ev, Inr (s\<lparr>last_idx := encodeId (fst x)\<rparr>))" "calls ev = []"
    using step [of s x] w by (cases "step s x") (simp add: iteration_def)
  have "\<not> seen_iframe (s\<lparr>last_idx := encodeId (fst x)\<rparr>)"
    using Cons.prems by simp
  from Cons.IH [OF this] Cons.prems(2)
  obtain tr where tr: "run step (s\<lparr>last_idx := encodeId (fst x)\<rparr>) ds =
      (tr, Inr (s\<lparr>last_idx := encodeId (fst x)\<rparr>
         \<lparr>last_idx := (if ds = [] then last_idx (s\<lparr>last_idx := encodeId (fst x)\<rparr>)
                        else encodeId (fst (last ds)))\<rparr>))"
    "length tr = length ds" "\<forall>ev\<in>set tr. calls ev = []"
    by auto
  show ?case
    using ev tr by simp
qed

lemma run_streaming_headers:
  assumes step: "\<And>s x. iteration ns s x (step s x)"
  assumes "seen_iframe s" and "run step s msgs = (tr, r)"
  shows "filter is_header (concat tr) = []"
  using assms(2,3)
proof (induction msgs arbitrary: s tr r)
  case Nil
  then show ?case by simp
next
  case (Cons x msgs)
  obtain ev r0 where ev: "step s x = (ev, r0)" by (cases "step s x")
  have nw: "\<not> waiting (seen_iframe s) (fst x)"
    using Cons.prems by (simp add: waiting_iff)
  have h: "filter is_header ev = []"
    and st: "\<And>s'. r0 = Inr s' \<Longrightarrow> seen_iframe s'"
    using step [of s x] nw Cons.prems(1) by (auto simp add: ev iteration_def Let_def)
  show ?case
  proof (cases r0)
    case (Inl err)
    then show ?thesis using Cons.prems(2) ev h by auto
  next
    case (Inr s')
    obtain tr' where tr': "run step s' msgs = (tr', r)" "tr = ev # tr'"
      using Cons.prems(2) ev Inr by (auto split: prod.splits)
    from Cons.IH [OF st [OF Inr] tr'(1)] h tr'(2) show ?thesis by simp
  qed
qed

lemma sends_Nil_readers:
  assumes "sends ev = []"
  shows "frame_indices ev = []" and "capture_stamps ev = []" and "publish_stamps ev = []"
  using assms frame_indices_sends [of ev] capture_stamps_sends [of ev] publish_stamps_sends [of ev]
  by simp_all

lemma sends_single_readers:
  assumes "sends ev = [Send img i c t]"
  shows "frame_indices ev = [i]" and "capture_stamps ev = [c]" and "publish_stamps ev = [t]"
  using assms frame_indices_sends [of ev] capture_stamps_sends [of ev] publish_stamps_sends [of ev]
  by simp_all

lemma sends_concat_Cons: "sends (concat (ev # tr)) = sends ev @ sends (concat tr)"
  by simp

lemma accepted_msgs_waiting:
  "waiting seen (fst x) \<Longrightarrow> accepted_msgs seen (x # msgs) = accepted_msgs False msgs"
  by (simp add: accepted_msgs_def waiting_iff)

lemma accepted_msgs_accept:
  "\<not> waiting seen (fst x) \<Longrightarrow> accepted_msgs seen (x # msgs) = x # accepted_msgs True msgs"
  by (auto simp add: accepted_msgs_def waiting_iff)

lemma accepted_msgs_Nil [simp]: "accepted_msgs seen [] = []"
  by (simp add: accepted_msgs_def)

lemma take_Suc_queue: "take (Suc m) ((q @ [t]) @ rest) = hd (q @ [t]) # take m (tl (q @ [t]) @ rest)"
  by (cases q) simp_all

lemma drop_Suc_queue: "drop (Suc m) ((q @ [t]) @ rest) = drop m (tl (q @ [t]) @ rest)"
  by (cases q) simp_all

lemma run_factsI:
  assumes "frame_indices (concat tr) = map (\<lambda>i. cnt s + int i) [0..<length (sends (concat tr))]"
    and "capture_stamps (concat tr) = map ns (take (length (sends (concat tr)))
           (time_q s @ map (t_recv \<circ> snd) (accepted_msgs (seen_iframe s) msgs)))"
    and "length (sends (concat tr))
           \<le> length (time_q s @ map (t_recv \<circ> snd) (accepted_msgs (seen_iframe s) msgs))"
    and "length (decode_counts (concat tr)) = length (accepted_msgs (seen_iframe s) msgs)"
    and "r \<noteq> Inl AssertionError \<and> r \<noteq> Inl ValueError \<longrightarrow>
           length (sends (concat tr)) + length (filter (\<lambda>n. n = 0) (decode_counts (concat tr)))
             = length (decode_counts (concat tr))"
    and "\<And>s'. r = Inr s' \<Longrightarrow> cnt s' = cnt s + int (length (sends (concat tr)))
           \<and> time_q s' = drop (length (sends (concat tr)))
               (time_q s @ map (t_recv \<circ> snd) (accepted_msgs (seen_iframe s) msgs))"
  shows "run_facts ns s msgs tr r"
  unfolding run_facts_def Let_def using assms by blast

lemma run_factsD:
  assumes "run_facts ns s msgs tr r"
  shows "frame_indices (concat tr) = map (\<lambda>i. cnt s + int i) [0..<length (sends (concat tr))]"
    and "capture_stamps (concat tr) = map ns (take (length (sends (concat tr)))
           (time_q s @ map (t_recv \<circ> snd) (accepted_msgs (seen_iframe s) msgs)))"
    and "length (sends (concat tr))
           \<le> length (time_q s @ map (t_recv \<circ> snd) (accepted_msgs (seen_iframe s) msgs))"
    and "length (decode_counts (concat tr)) = length (accepted_msgs (seen_iframe s) msgs)"
    and "r \<noteq> Inl AssertionError \<and> r \<noteq> Inl ValueError \<longrightarrow>
           length (sends (concat tr)) + length (filter (\<lambda>n. n = 0) (decode_counts (concat tr)))
             = length (decode_counts (concat tr))"
    and "\<And>s'. r = Inr s' \<Longrightarrow> cnt s' = cnt s + int (length (sends (concat tr)))
           \<and> time_q s' = drop (length (sends (concat tr)))
               (time_q s @ map (t_recv \<circ> snd) (accepted_msgs (seen_iframe s) msgs))"
  using assms unfolding run_facts_def Let_def by blast+

lemma run_facts_zero:
  assumes nw: "\<not> waiting (seen_iframe s) (fst x)"
    and dc: "decode_counts ev = [0]" and se: "sends ev = []"
    and c: "cnt s' = cnt s" and q: "time_q s' = time_q s @ [t_recv (snd x)]" and seen: "seen_iframe s'"
    and ih: "run_facts ns s' msgs tr r"
  shows "run_facts ns s (x # msgs) (ev # tr) r"
proof (rule run_factsI)
  note d = run_factsD [OF ih]
  have acc: "accepted_msgs (seen_iframe s) (x # msgs) = x # msgs"
    using nw by (auto simp add: accepted_msgs_def waiting_iff)
  have acc': "accepted_msgs (seen_iframe s') msgs = msgs"
    using seen by (simp add: accepted_msgs_def)
  have m: "length (sends (concat (ev # tr))) = length (sends (concat tr))"
    using se by simp
  show "frame_indices (concat (ev # tr)) = map (\<lambda>i. cnt s + int i) [0..<length (sends (concat (ev # tr)))]"
    using d(1) by (simp only: m) (simp add: sends_Nil_readers [OF se] c)
  show "capture_stamps (concat (ev # tr)) = map ns (take (length (sends (concat (ev # tr))))
           (time_q s @ map (t_recv \<circ> snd) (accepted_msgs (seen_iframe s) (x # msgs))))"
    using d(2) by (simp only: m acc acc') (simp add: sends_Nil_readers [OF se] q)
  show "length (sends (concat (ev # tr)))
           \<le> length (time_q s @ map (t_recv \<circ> snd) (accepted_msgs (seen_iframe s) (x # msgs)))"
    using d(3) by (simp only: m acc acc') (simp add: q)
  show "length (decode_counts (concat (ev # tr))) = length (accepted_msgs (seen_iframe s) (x # msgs))"
    using d(4) by (simp only: acc acc') (simp add: dc)
  show "r \<noteq> Inl AssertionError \<and> r \<noteq> Inl ValueError \<longrightarrow>
           length (sends (concat (ev # tr))) + length (filter (\<lambda>n. n = 0) (decode_counts (concat (ev # tr))))
             = length (decode_counts (concat (ev # tr)))"
    using d(5) by (simp only: m) (simp add: dc)
  show "cnt s'' = cnt s + int (length (sends (concat (ev # tr))))
           \<and> time_q s'' = drop (length (sends (concat (ev # tr))))
               (time_q s @ map (t_recv \<circ> snd) (accepted_msgs (seen_iframe s) (x # msgs)))"
    if "r = Inr s''" for s''
    using d(6) [OF that] by (simp only: m acc acc') (simp add: c q)
qed

lemma run_facts_sent:
  assumes nw: "\<not> waiting (seen_iframe s) (fst x)"
    and dc: "decode_counts ev = [1]"
    and se: "sends ev = [Send img (cnt s) (ns (hd (time_q s @ [t_recv (snd x)]))) t]"
    and c: "cnt s' = cnt s + 1" and q: "time_q s' = tl (time_q s @ [t_recv (snd x)])"
    and seen: "seen_iframe s'"
    and ih: "run_facts ns s' msgs tr r"
  shows "run_facts ns s (x # msgs) (ev # tr) r"
proof (rule run_factsI)
  note d = run_factsD [OF ih]
  let ?m = "length (sends (concat tr))"
  let ?rest = "map (t_recv \<circ> snd) msgs"
  have acc: "accepted_msgs (seen_iframe s) (x # msgs) = x # msgs"
    using nw by (auto simp add: accepted_msgs_def waiting_iff)
  have acc': "accepted_msgs (seen_iframe s') msgs = msgs"
    using seen by (simp add: accepted_msgs_def)
  have m: "length (sends (concat (ev # tr))) = Suc ?m"
    using se by simp
  have idx: "map (\<lambda>i. cnt s + int i) [0..<Suc ?m] = cnt s # map (\<lambda>i. cnt s + 1 + int i) [0..<?m]"
    by (simp add: map_upt_Suc del: upt_Suc)
  have st: "time_q s @ map (t_recv \<circ> snd) (x # msgs) = (time_q s @ [t_recv (snd x)]) @ ?rest"
    by simp
  show "frame_indices (concat (ev # tr)) = map (\<lambda>i. cnt s + int i) [0..<length (sends (concat (ev # tr)))]"
    using d(1) by (simp only: m idx) (simp add: sends_single_readers [OF se] c)
  show "capture_stamps (concat (ev # tr)) = map ns (take (length (sends (concat (ev # tr))))
           (time_q s @ map (t_recv \<circ> snd) (accepted_msgs (seen_iframe s) (x # msgs))))"
    using d(2) by (simp only: m acc acc' st take_Suc_queue q) (simp add: sends_single_readers [OF se])
  show "length (sends (concat (ev # tr)))
           \<le> length (time_q s @ map (t_recv \<circ> snd) (accepted_msgs (seen_iframe s) (x # msgs)))"
    using d(3) by (simp only: m acc acc' q) simp
  show "length (decode_counts (concat (ev # tr))) = length (accepted_msgs (seen_iframe s) (x # msgs))"
    using d(4) by (simp only: acc acc') (simp add: dc)
  show "r \<noteq> Inl AssertionError \<and> r \<noteq> Inl ValueError \<longrightarrow>
           length (sends (concat (ev # tr))) + length (filter (\<lambda>n. n = 0) (decode_counts (concat (ev # tr))))
             = length (decode_counts (concat (ev # tr)))"
    using d(5) by (simp only: m) (simp add: dc)
  show "cnt s'' = cnt s + int (length (sends (concat (ev # tr))))
           \<and> time_q s'' = drop (length (sends (concat (ev # tr))))
               (time_q s @ map (t_recv \<circ> snd) (accepted_msgs (seen_iframe s) (x # msgs)))"
    if "r = Inr s''" for s''
    using d(6) [OF that] by (simp only: m acc acc' st drop_Suc_queue q) (simp add: c)
qed

lemma calls_Nil_readers:
  assumes "calls ev = []"
  shows "sends ev = []" and "decode_counts ev = []" and "filter is_header ev = []"
proof -
  have "\<forall>e\<in>set ev. is_print e"
    using assms by (auto simp add: calls_def filter_empty_conv)
  then show "sends ev = []" and "decode_counts ev = []" and "filter is_header ev = []"
    by (induction ev rule: decode_counts.induct) simp_all
qed

lemma run_facts_waiting:
  assumes w: "waiting (seen_iframe s) (fst x)"
    and ca: "calls ev = []" and ih: "run_facts ns (s\<lparr>last_idx := i\<rparr>) msgs tr r"
  shows "run_facts ns s (x # msgs) (ev # tr) r"
proof (rule run_factsI)
  note d = run_factsD [OF ih]
  have se: "sends ev = []" and dc: "decode_counts ev = []"
    using calls_Nil_readers [OF ca] by simp_all
  have ns: "\<not> seen_iframe s"
    using w by (simp add: waiting_def)
  have acc: "accepted_msgs (seen_iframe s) (x # msgs) = accepted_msgs False msgs"
    using w by (simp add: accepted_msgs_waiting)
  have acc': "accepted_msgs (seen_iframe (s\<lparr>last_idx := i\<rparr>)) msgs = accepted_msgs False msgs"
    using ns by simp
  have m: "length (sends (concat (ev # tr))) = length (sends (concat tr))"
    using se by simp
  show "frame_indices (concat (ev # tr)) = map (\<lambda>i. cnt s + int i) [0..<length (sends (concat (ev # tr)))]"
    using d(1) by (simp only: m) (simp add: sends_Nil_readers [OF se])
  show "capture_stamps (concat (ev # tr)) = map ns (take (length (sends (concat (ev # tr))))
           (time_q s @ map (t_recv \<circ> snd) (accepted_msgs (seen_iframe s) (x # msgs))))"
    using d(2) by (simp only: m acc acc') (simp add: sends_Nil_readers [OF se])
  show "length (sends (concat (ev # tr)))
           \<le> length (time_q s @ map (t_recv \<circ> snd) (accepted_msgs (seen_iframe s) (x # msgs)))"
    using d(3) by (simp only: m acc acc') simp
  show "length (decode_counts (concat (ev # tr))) = length (accepted_msgs (seen_iframe s) (x # msgs))"
    using d(4) by (simp only: acc acc') (simp add: dc)
  show "r \<noteq> Inl AssertionError \<and> r \<noteq> Inl ValueError \<longrightarrow>
           length (sends (concat (ev # tr))) + length (filter (\<lambda>n. n = 0) (decode_counts (concat (ev # tr))))
             = length (decode_counts (concat (ev # tr)))"
    using d(5) by (simp only: m) (simp add: dc)
  show "cnt s'' = cnt s + int (length (sends (concat (ev # tr))))
           \<and> time_q s'' = drop (length (sends (concat (ev # tr))))
               (time_q s @ map (t_recv \<circ> snd) (accepted_msgs (seen_iframe s) (x # msgs)))"
    if "r = Inr s''" for s''
    using d(6) [OF that] by (simp only: m acc acc') simp
qed

lemma run_facts_stop:
  assumes "iteration ns s x (ev, Inl err)"
  shows "run_facts ns s [x] [ev] (Inl err)"
proof -
  have nw: "\<not> waiting (seen_iframe s) (fst x)"
    using assms by (auto simp add: iteration_def Let_def)
  have take1: "take (Suc 0) (time_q s @ [t]) = [hd (time_q s @ [t])]" for t
    by (cases "time_q s") simp_all
  have acc: "accepted_msgs (seen_iframe s) [x] = [x]"
    using nw by (auto simp add: accepted_msgs_def waiting_iff)
  from assms nw show ?thesis
    unfolding run_facts_def Let_def acc
    by (auto simp add: iteration_def Let_def sends_Nil_readers sends_single_readers take1
          simp del: take_append)
qed

lemma run_facts_Nil: "run_facts ns s [] [] (Inr s)"
  by (simp add: run_facts_def)

lemma run_facts_run:
  assumes step: "\<And>s x. iteration ns s x (step s x)"
  assumes "run step s msgs = (tr, r)"
  shows "run_facts ns s (take (length tr) msgs) tr r"
  using assms(2)
proof (induction msgs arbitrary: s tr r)
  case Nil
  then show ?case by (auto simp add: run_facts_Nil)
next
  case (Cons x msgs)
  obtain ev r0 where ev: "step s x = (ev, r0)" by (cases "step s x")
  have it: "iteration ns s x (ev, r0)"
    using step [of s x] by (simp add: ev)
  show ?case
  proof (cases r0)
    case (Inl err)
    then have "tr = [ev]" "r = Inl err"
      using Cons.prems ev by simp_all
    then show ?thesis
      using run_facts_stop [of ns s x ev err] it Inl by simp
  next
    case (Inr s1)
    obtain tr' where tr': "run step s1 msgs = (tr', r)" "tr = ev # tr'"
      using Cons.prems ev Inr by (auto split: prod.splits)
    note ih = Cons.IH [OF tr'(1)]
    have tk: "take (length (ev # tr')) (x # msgs) = x # take (length tr') msgs"
      by simp
    show ?thesis
    proof (cases "waiting (seen_iframe s) (fst x)")
      case True
      then have "calls ev = []" "s1 = s\<lparr>last_idx := encodeId (fst x)\<rparr>"
        using it Inr by (simp_all add: iteration_def Let_def)
      then show ?thesis
        using run_facts_waiting [OF True, of ev ns "encodeId (fst x)"] ih tr'(2) by simp
    next
      case False
      from it False Inr consider
        (zero) "decode_counts ev = [0]" "sends ev = []" "cnt s1 = cnt s"
          "time_q s1 = time_q s @ [t_recv (snd x)]" "seen_iframe s1"
      | (sent) img where "decode_counts ev = [1]"
          "sends ev = [Send img (cnt s) (ns (hd (time_q s @ [t_recv (snd x)]))) (ns (t_send (snd x)))]"
          "cnt s1 = cnt s + 1" "time_q s1 = tl (time_q s @ [t_recv (snd x)])" "seen_iframe s1"
        by (auto simp add: iteration_def Let_def)
      then show ?thesis
      proof cases
        case zero
        show ?thesis
          unfolding tr'(2) tk by (rule run_facts_zero [OF False zero ih])
      next
        case sent
        show ?thesis
          unfolding tr'(2) tk by (rule run_facts_sent [OF False sent ih])
      qed
    qed
  qed
qed

section \<open>Frame indices and timestamps\<close>

lemma run_nth:
  "run step s msgs = (tr, r) \<Longrightarrow> i < length tr \<Longrightarrow> \<exists>s'. tr ! i = fst (step s' (msgs ! i))"
proof (induction msgs arbitrary: s tr i)
  case Nil
  then show ?case by simp
next
  case (Cons x msgs)
  obtain ev r0 where ev: "step s x = (ev, r0)" by (cases "step s x")
  show ?case
  proof (cases r0)
    case (Inl err)
    then have "tr = [ev]" using Cons.prems(1) ev by simp
    then show ?thesis using Cons.prems(2) ev by (auto intro: exI [of _ s])
  next
    case (Inr s1)
    obtain tr' where tr': "run step s1 msgs = (tr', r)" "tr = ev # tr'"
      using Cons.prems(1) ev Inr by (auto split: prod.splits)
    show ?thesis
    proof (cases i)
      case 0
      then show ?thesis using tr'(2) ev by (auto intro: exI [of _ s])
    next
      case (Suc j)
      then have "j < length tr'" using Cons.prems(2) tr'(2) by simp
      from Cons.IH [OF tr'(1) this] show ?thesis using Suc tr'(2) by simp
    qed
  qed
qed

lemma iteration_publish_stamps:
  assumes "iteration ns s x (ev, r)"
  shows "publish_stamps ev = [] \<or> publish_stamps ev = [ns (t_send (snd x))]"
proof (cases "waiting (seen_iframe s) (fst x)")
  case True
  then have "calls ev = []" using assms by (simp add: iteration_def Let_def)
  then show ?thesis using calls_Nil_readers(1) sends_Nil_readers(3) by blast
next
  case False
  then consider "sends ev = []"
    | img where "sends ev = [Send img (cnt s) (ns (hd (time_q s @ [t_recv (snd x)]))) (ns (t_send (snd x)))]"
    using assms by (auto simp add: iteration_def Let_def)
  then show ?thesis
    by cases (simp_all add: sends_Nil_readers sends_single_readers)
qed

lemma run_publish_stamps:
  assumes step: "\<And>s x. iteration ns s x (step s x)"
    and "run step s msgs = (tr, r)" and "i < length tr"
  shows "publish_stamps (tr ! i) = [] \<or> publish_stamps (tr ! i) = [ns (t_send (snd (msgs ! i)))]"
proof -
  obtain s' where "tr ! i = fst (step s' (msgs ! i))"
    using run_nth [OF assms(2,3)] by blast
  moreover have "iteration ns s' (msgs ! i) (fst (step s' (msgs ! i)), snd (step s' (msgs ! i)))"
    using step [of s' "msgs ! i"] by simp
  ultimately show ?thesis
    using iteration_publish_stamps by metis
qed

lemma run_facts_init:
  assumes "run_facts ns s msgs tr r" and "cnt s = 0" and "time_q s = []" and "\<not> seen_iframe s"
  shows "frame_indices (concat tr) = map int [0..<length (sends (concat tr))]"
    and "capture_stamps (concat tr)
          = map ns (take (length (sends (concat tr))) (map (t_recv \<circ> snd) (accepted_msgs False msgs)))"
    and "length (decode_counts (concat tr)) = length (accepted_msgs False msgs)"
    and "r \<noteq> Inl AssertionError \<and> r \<noteq> Inl ValueError \<longrightarrow>
           length (sends (concat tr)) = length (accepted_msgs False msgs) - zero_decodes (concat tr)"
  using run_factsD(1,2,4,5) [OF assms(1)] assms(2-4)
  by (auto simp add: zero_decodes_def split: if_splits)

text \<open>
  The count claimed in C2 fails where a decode gives two frames: the packet is accepted
  and its frame count is not zero, but the assertion ends the run before any send, in
  both scripts (\<open>msgs_many\<close>; in the second script also after a first publish,
  \<open>msgs_two\<close>). It fails as well where the reshape of the packing does not fit: with a
  stream announced as 3 by 1 and a decoded frame of twelve bytes, nine bytes are left
  after the luma offset, and the run ends in \<open>ValueError\<close> without a send.
\<close>

theorem publish_count_counterexample:
  "length (accepted_msgs False msgs_many) = 1
   \<and> zero_decodes (concat (fst (decoder3 count_dec id 0 4 2 False msgs_many))) = 0
   \<and> frame_indices (concat (fst (decoder3 count_dec id 0 4 2 False msgs_many))) = []
   \<and> snd (decoder3 count_dec id 0 4 2 False msgs_many) = Inl AssertionError
   \<and> zero_decodes (concat (fst (decoder4 count_dec id 0 0 4 2 False msgs_many))) = 0
   \<and> frame_indices (concat (fst (decoder4 count_dec id 0 0 4 2 False msgs_many))) = []
   \<and> snd (decoder4 count_dec id 0 0 4 2 False msgs_many) = Inl AssertionError
   \<and> length (accepted_msgs False msgs_two) = 2
   \<and> zero_decodes (concat (fst (decoder4 count_dec id 0 0 4 2 False msgs_two))) = 0
   \<and> frame_indices (concat (fst (decoder4 count_dec id 0 0 4 2 False msgs_two))) = [0]
   \<and> snd (decoder4 count_dec id 0 0 4 2 False msgs_two) = Inl AssertionError
   \<and> length (accepted_msgs False msgs_one) = 1
   \<and> zero_decodes (concat (fst (decoder3 count_dec id 0 3 1 False msgs_one))) = 0
   \<and> frame_indices (concat (fst (decoder3 count_dec id 0 3 1 False msgs_one))) = []
   \<and> snd (decoder3 count_dec id 0 3 1 False msgs_one) = Inl ValueError
   \<and> zero_decodes (concat (fst (decoder4 count_dec id 0 0 3 1 False msgs_one))) = 0
   \<and> frame_indices (concat (fst (decoder4 count_dec id 0 0 3 1 False msgs_one))) = []
   \<and> snd (decoder4 count_dec id 0 0 3 1 False msgs_one) = Inl ValueError"
  by code_simp

text \<open>
  C2, as amended. In every run of either script the frame indices sent to the bus are
  0, 1, ..., M - 1 in order, M being the number of sends, whatever the \<^verbatim>\<open>encodeId\<close>
  values are; every accepted packet (one received from the first keyframe on) has one
  data decode; and when the run has not ended in the failed assertion of line 84 or in a
  failed reshape of the packing, M = N - F for the N accepted packets and the F decodes
  that gave zero frames.
\<close>

theorem dense_publish_index:
  assumes "decoder3 dec ns c W H debug msgs = (tr, r)"
    and "decoder4 dec ns c t0 W H debug msgs = (tr4, r4)"
  shows "frame_indices (concat tr) = map int [0..<length (sends (concat tr))]
       \<and> length (decode_counts (concat tr)) = length (accepted_msgs False (take (length tr) msgs))
       \<and> (r \<noteq> Inl AssertionError \<and> r \<noteq> Inl ValueError \<longrightarrow>
            length (sends (concat tr))
              = length (accepted_msgs False (take (length tr) msgs)) - zero_decodes (concat tr))
       \<and> frame_indices (concat tr4) = map int [0..<length (sends (concat tr4))]
       \<and> length (decode_counts (concat tr4)) = length (accepted_msgs False (take (length tr4) msgs))
       \<and> (r4 \<noteq> Inl AssertionError \<and> r4 \<noteq> Inl ValueError \<longrightarrow>
            length (sends (concat tr4))
              = length (accepted_msgs False (take (length tr4) msgs)) - zero_decodes (concat tr4))"
proof -
  have a: "run_facts ns (init3 c) (take (length tr) msgs) tr r"
    using assms(1) unfolding decoder3_def by (rule run_facts_run [OF iteration_step3])
  have b: "run_facts ns (init4 c t0) (take (length tr4) msgs) tr4 r4"
    using assms(2) unfolding decoder4_def by (rule run_facts_run [OF iteration_step4])
  have i3: "cnt (init3 c) = 0" "time_q (init3 c :: ('a, 'b) wstate) = []" "\<not> seen_iframe (init3 c)"
    by (simp_all add: init3_def)
  have i4: "cnt (init4 c t0) = 0" "time_q (init4 c t0 :: ('a, 'b) wstate4) = []"
    "\<not> seen_iframe (init4 c t0)"
    by (simp_all add: init4_def)
  show ?thesis
    using run_facts_init(1,3,4) [OF a i3] run_facts_init(1,3,4) [OF b i4] by blast
qed

theorem dense_publish_index_witness:
  "frame_indices (concat (fst (decoder3 count_dec id 0 4 2 True msgs_skip))) = [0]
   \<and> length (accepted_msgs False msgs_skip) = 2
   \<and> zero_decodes (concat (fst (decoder3 count_dec id 0 4 2 True msgs_skip))) = 1
   \<and> length (sends (concat (fst (decoder3 count_dec id 0 4 2 True msgs_skip)))) = 2 - 1
   \<and> snd (decoder3 count_dec id 0 4 2 True msgs_skip) = Inl AttributeError
   \<and> frame_indices (concat (fst (decoder4 count_dec id 0 0 4 2 True msgs4))) = [0, 1]
   \<and> length (accepted_msgs False msgs4) = 3
   \<and> zero_decodes (concat (fst (decoder4 count_dec id 0 0 4 2 True msgs4))) = 1
   \<and> length (sends (concat (fst (decoder4 count_dec id 0 0 4 2 True msgs4)))) = 3 - 1"
proof -
  let ?D3 = "decoder3 count_dec id 0 4 2 True msgs_skip"
  let ?E4 = "decoder4 count_dec id 0 0 4 2 True msgs_skip"
  let ?E3 = "decoder3 count_dec id 0 4 2 True msgs4"
  let ?D4 = "decoder4 count_dec id 0 0 4 2 True msgs4"
  have h3: "?D3 = (fst ?D3, snd ?D3)" and h4: "?D4 = (fst ?D4, snd ?D4)"
    and g3: "?E3 = (fst ?E3, snd ?E3)" and g4: "?E4 = (fst ?E4, snd ?E4)"
    by simp_all
  have ok: "snd ?D3 = Inl AttributeError"
    "snd ?D4 \<noteq> Inl AssertionError \<and> snd ?D4 \<noteq> Inl ValueError"
    by code_simp+
  have n: "length (accepted_msgs False (take (length (fst ?D3)) msgs_skip)) = 2"
    "length (accepted_msgs False (take (length (fst ?D4)) msgs4)) = 3"
    "length (accepted_msgs False msgs_skip) = 2" "length (accepted_msgs False msgs4) = 3"
    "zero_decodes (concat (fst ?D3)) = 1" "zero_decodes (concat (fst ?D4)) = 1"
    by code_simp+
  have upt: "map int [0..<2 - 1] = [0]" "map int [0..<3 - 1] = [0, 1]"
    by code_simp+
  note a = dense_publish_index [OF h3 g4]
  note b = dense_publish_index [OF g3 h4]
  have s3: "length (sends (concat (fst ?D3))) = 2 - 1"
    using a ok(1) n(1,5) by simp
  have s4: "length (sends (concat (fst ?D4))) = 3 - 1"
    using b ok(2) n(2,6) by simp
  have f3: "frame_indices (concat (fst ?D3)) = [0]"
    using a s3 upt(1) by simp
  have f4: "frame_indices (concat (fst ?D4)) = [0, 1]"
    using b s4 upt(2) by simp
  show ?thesis
    using s3 s4 f3 f4 n(3-6) ok(1) by simp
qed

text \<open>
  C3. The capture timestamp of the i-th send is the receipt time of the i-th accepted
  packet (converted by \<open>ns\<close>), also when decodes without a frame lie in between; the
  publish timestamp of a send is the clock reading of its own iteration at the send.
  Both scripts.
\<close>

theorem timestamp_fifo:
  assumes "decoder3 dec ns c W H debug msgs = (tr, r)"
    and "decoder4 dec ns c t0 W H debug msgs = (tr4, r4)"
  shows "capture_stamps (concat tr)
           = map ns (take (length (sends (concat tr)))
               (map (t_recv \<circ> snd) (accepted_msgs False (take (length tr) msgs))))
       \<and> (\<forall>i<length tr. publish_stamps (tr ! i) = []
              \<or> publish_stamps (tr ! i) = [ns (t_send (snd (msgs ! i)))])
       \<and> capture_stamps (concat tr4)
           = map ns (take (length (sends (concat tr4)))
               (map (t_recv \<circ> snd) (accepted_msgs False (take (length tr4) msgs))))
       \<and> (\<forall>i<length tr4. publish_stamps (tr4 ! i) = []
              \<or> publish_stamps (tr4 ! i) = [ns (t_send (snd (msgs ! i)))])"
proof -
  have a: "run_facts ns (init3 c) (take (length tr) msgs) tr r"
    using assms(1) unfolding decoder3_def by (rule run_facts_run [OF iteration_step3])
  have b: "run_facts ns (init4 c t0) (take (length tr4) msgs) tr4 r4"
    using assms(2) unfolding decoder4_def by (rule run_facts_run [OF iteration_step4])
  have i3: "cnt (init3 c) = 0" "time_q (init3 c :: ('a, 'b) wstate) = []" "\<not> seen_iframe (init3 c)"
    by (simp_all add: init3_def)
  have i4: "cnt (init4 c t0) = 0" "time_q (init4 c t0 :: ('a, 'b) wstate4) = []"
    "\<not> seen_iframe (init4 c t0)"
    by (simp_all add: init4_def)
  have p3: "publish_stamps (tr ! i) = [] \<or> publish_stamps (tr ! i) = [ns (t_send (snd (msgs ! i)))]"
    if "i < length tr" for i
    using run_publish_stamps [OF iteration_step3 assms(1) [unfolded decoder3_def] that] .
  have p4: "publish_stamps (tr4 ! i) = [] \<or> publish_stamps (tr4 ! i) = [ns (t_send (snd (msgs ! i)))]"
    if "i < length tr4" for i
    using run_publish_stamps [OF iteration_step4 assms(2) [unfolded decoder4_def] that] .
  show ?thesis
    using run_facts_init(2) [OF a i3] run_facts_init(2) [OF b i4] p3 p4 by blast
qed

theorem timestamp_fifo_witness:
  "map (t_recv \<circ> snd) (accepted_msgs False msgs_skip) = [20, 30]
   \<and> capture_stamps (concat (fst (decoder3 count_dec id 0 4 2 True msgs_skip))) = [20]
   \<and> publish_stamps (fst (decoder3 count_dec id 0 4 2 True msgs_skip) ! 2)
       = [t_send (snd (msgs_skip ! 2))]
   \<and> map (t_recv \<circ> snd) (accepted_msgs False msgs4) = [20, 30, 40]
   \<and> capture_stamps (concat (fst (decoder4 count_dec id 0 0 4 2 True msgs4))) = [20, 30]
   \<and> publish_stamps (fst (decoder4 count_dec id 0 0 4 2 True msgs4) ! 3) = [t_send (snd (msgs4 ! 3))]"
proof -
  let ?D3 = "decoder3 count_dec id 0 4 2 True msgs_skip"
  let ?E4 = "decoder4 count_dec id 0 0 4 2 True msgs_skip"
  let ?E3 = "decoder3 count_dec id 0 4 2 True msgs4"
  let ?D4 = "decoder4 count_dec id 0 0 4 2 True msgs4"
  have h3: "?D3 = (fst ?D3, snd ?D3)" and h4: "?D4 = (fst ?D4, snd ?D4)"
    and g3: "?E3 = (fst ?E3, snd ?E3)" and g4: "?E4 = (fst ?E4, snd ?E4)"
    by simp_all
  have n: "length (fst ?D3) = 3" "length (fst ?D4) = 4" "length (sends (concat (fst ?D3))) = 1"
    "length (sends (concat (fst ?D4))) = 2"
    by code_simp+
  have q: "publish_stamps (fst ?D3 ! 2) \<noteq> []" "publish_stamps (fst ?D4 ! 3) \<noteq> []"
    by code_simp+
  have m: "map (t_recv \<circ> snd) (accepted_msgs False (take 3 msgs_skip)) = [20, 30]"
    "map (t_recv \<circ> snd) (accepted_msgs False msgs_skip) = [20, 30]"
    "map (t_recv \<circ> snd) (accepted_msgs False (take 4 msgs4)) = [20, 30, 40]"
    "map (t_recv \<circ> snd) (accepted_msgs False msgs4) = [20, 30, 40]"
    by code_simp+
  note a = timestamp_fifo [OF h3 g4, unfolded n]
  note b = timestamp_fifo [OF g3 h4, unfolded n]
  have i: "(2::nat) < 3" "(3::nat) < 4" by simp_all
  have c3: "capture_stamps (concat (fst ?D3)) = [20]"
    using a m(1) by simp
  have c4: "capture_stamps (concat (fst ?D4)) = [20, 30]"
    using b m(3) by simp
  have p3: "publish_stamps (fst ?D3 ! 2) = [t_send (snd (msgs_skip ! 2))]"
    using a i(1) q(1) by (metis id_apply)
  have p4: "publish_stamps (fst ?D4 ! 3) = [t_send (snd (msgs4 ! 3))]"
    using b i(2) q(2) by (metis id_apply)
  show ?thesis
    using c3 c4 p3 p4 m(2,4) by simp
qed

section \<open>Synchronisation\<close>

lemma iteration_accept:
  assumes "iteration ns s x (ev, r)" and "\<not> waiting (seen_iframe s) (fst x)"
  shows "filter is_header ev = (if seen_iframe s then [] else [DecodeHeader (header (fst x))])"
    and "\<And>s'. r = Inr s' \<Longrightarrow> seen_iframe s'"
  using assms by (auto simp add: iteration_def Let_def)

lemma headers_concat_calls_Nil:
  assumes "\<forall>ev\<in>set tr. calls ev = []"
  shows "filter is_header (concat tr) = []" and "calls (concat tr) = []"
  using assms by (induction tr) (simp_all add: calls_Nil_readers(3))

lemma decoded_last_idx [simp]: "decoded dec (s\<lparr>last_idx := i\<rparr>) p = decoded dec s p"
  by (simp add: decoded_def codec_at_data_def)

lemma take2_append: "take 2 xs = [a, b] \<Longrightarrow> take 2 (xs @ ys) = [a, b]"
  by (cases xs; cases "tl xs") (auto simp add: numeral_2_eq_2)

lemma run_sync:
  assumes step: "\<And>s x. iteration ns s x (step s x)"
    and key: "\<And>s p e. \<not> seen_iframe s \<Longrightarrow> keyframe p \<Longrightarrow>
        take 2 (calls (fst (step s (p, e))))
          = [DecodeHeader (header p), DecodeData (data p) (length (decoded dec s p))]"
    and k: "k < length msgs" "\<forall>i<k. \<not> keyframe (fst (msgs ! i))" "keyframe (fst (msgs ! k))"
    and ns: "\<not> seen_iframe s"
    and run: "run step s msgs = (tr, r)"
  shows "k < length tr" and "\<forall>i<k. calls (tr ! i) = []"
    and "take 2 (calls (tr ! k))
          = [DecodeHeader (header (fst (msgs ! k))),
             DecodeData (data (fst (msgs ! k))) (length (decoded dec s (fst (msgs ! k))))]"
    and "filter is_header (concat tr) = [DecodeHeader (header (fst (msgs ! k)))]"
    and "take 2 (calls (concat tr)) = take 2 (calls (tr ! k))"
proof -
  let ?ds = "take k msgs" and ?x = "msgs ! k" and ?rest = "drop (Suc k) msgs"
  have split: "msgs = ?ds @ ?x # ?rest"
    using k(1) by (simp add: id_take_nth_drop)
  have nok: "\<forall>x\<in>set ?ds. \<not> keyframe (fst x)"
    using k(1,2) by (fastforce simp add: in_set_conv_nth)
  obtain trw s1 where w: "run step s ?ds = (trw, Inr s1)" "length trw = k"
    "\<forall>ev\<in>set trw. calls ev = []"
    and s1: "s1 = s\<lparr>last_idx := (if ?ds = [] then last_idx s else encodeId (fst (last ?ds)))\<rparr>"
    using run_waiting [OF step ns nok] k(1) by auto
  have ns1: "\<not> seen_iframe s1" using ns s1 by simp
  have nw: "\<not> waiting (seen_iframe s1) (fst ?x)"
    using k(3) by (simp add: waiting_iff)
  obtain ev r0 where ev: "step s1 ?x = (ev, r0)" by (cases "step s1 ?x")
  have it: "iteration ns s1 ?x (ev, r0)"
    using step [of s1 ?x] by (simp add: ev)
  have hd_ev: "filter is_header ev = [DecodeHeader (header (fst ?x))]"
    using iteration_accept(1) [OF it nw] ns1 by simp
  have t2: "take 2 (calls ev)
      = [DecodeHeader (header (fst ?x)), DecodeData (data (fst ?x)) (length (decoded dec s (fst ?x)))]"
    using key [OF ns1 k(3), of "snd ?x"] ev by (simp add: s1)
  obtain tr2 where tr: "tr = trw @ ev # tr2" and h2: "filter is_header (concat tr2) = []"
  proof (cases r0)
    case (Inl err)
    have "run step s msgs = (trw @ [ev], Inl err)"
      by (subst split) (simp add: run_append w ev Inl)
    then have "tr = trw @ ev # []" using run by simp
    then show ?thesis using that [of "[]"] by simp
  next
    case (Inr s2)
    obtain tr2 r2 where r2: "run step s2 ?rest = (tr2, r2)" by (cases "run step s2 ?rest")
    have "run step s msgs = (trw @ ev # tr2, r2)"
      by (subst split) (simp add: run_append w ev Inr r2)
    then have "tr = trw @ ev # tr2" using run by simp
    moreover have "filter is_header (concat tr2) = []"
      using run_streaming_headers [OF step iteration_accept(2) [OF it nw Inr] r2] .
    ultimately show ?thesis using that by blast
  qed
  show "k < length tr" using tr w(2) by simp
  show "\<forall>i<k. calls (tr ! i) = []"
    using tr w(2,3) by (auto simp add: nth_append)
  have nth: "tr ! k = ev" using tr w(2) by (simp add: nth_append)
  show "take 2 (calls (tr ! k))
          = [DecodeHeader (header (fst (msgs ! k))),
             DecodeData (data (fst (msgs ! k))) (length (decoded dec s (fst (msgs ! k))))]"
    using t2 nth by simp
  show "filter is_header (concat tr) = [DecodeHeader (header (fst (msgs ! k)))]"
    using tr headers_concat_calls_Nil(1) [OF w(3)] hd_ev h2 by simp
  show "take 2 (calls (concat tr)) = take 2 (calls (tr ! k))"
    using tr headers_concat_calls_Nil(2) [OF w(3)] nth take2_append [OF t2] t2 by simp
qed

lemma calls_front_events:
  "calls (front_events dec debug s p) =
     (if seen_iframe s then [] else [DecodeHeader (header p)])
       @ [DecodeData (data p) (length (decoded dec s p))]"
  by (simp add: front_events_def)

lemma step3_key:
  assumes "\<not> seen_iframe s" and "keyframe p"
  shows "take 2 (calls (fst (step3 dec ns W H debug s (p, e))))
          = [DecodeHeader (header p), DecodeData (data p) (length (decoded dec s p))]"
proof -
  have "\<not> waiting (seen_iframe s) p" using assms(2) by (simp add: waiting_iff)
  then show ?thesis
    using assms(1)
    by (simp add: step3_accept calls_front_events split: list.splits sum.splits option.splits)
qed

lemma step4_key:
  assumes "\<not> seen_iframe s" and "keyframe p"
  shows "take 2 (calls (fst (step4 dec ns W H debug s (p, e))))
          = [DecodeHeader (header p), DecodeData (data p) (length (decoded dec s p))]"
proof -
  have "\<not> waiting (seen_iframe s) p" using assms(2) by (simp add: waiting_iff)
  then show ?thesis
    using assms(1)
    by (simp add: step4_accept calls_front_events split: list.splits sum.splits option.splits)
qed

lemma decoded_init:
  "decoded dec (init3 c) p = snd (dec (fst (dec c (header p))) (data p))"
  "decoded dec (init4 c t0) p = snd (dec (fst (dec c (header p))) (data p))"
  by (simp_all add: decoded_def codec_at_data_def init3_def init4_def)

text \<open>
  C1. When the first keyframe packet stands at position \<open>k\<close>, the worker gets as far as
  that packet; the iterations before \<open>k\<close> make no call at all (no decode, no send: the
  packets are discarded); the first two calls of iteration \<open>k\<close>, and of the whole run,
  are the decode of that packet's header and then the decode of its data, so every send
  comes after both; and the header decode is the only one of the run. Both scripts.
\<close>

theorem sync_gating:
  assumes "k < length msgs" and "\<forall>i<k. \<not> keyframe (fst (msgs ! i))"
    and "keyframe (fst (msgs ! k))"
    and "decoder3 dec ns c W H debug msgs = (tr, r)"
    and "decoder4 dec ns c t0 W H debug msgs = (tr4, r4)"
  shows "k < length tr \<and> (\<forall>i<k. calls (tr ! i) = [])
       \<and> take 2 (calls (tr ! k))
           = [DecodeHeader (header (fst (msgs ! k))),
              DecodeData (data (fst (msgs ! k)))
                (length (snd (dec (fst (dec c (header (fst (msgs ! k))))) (data (fst (msgs ! k))))))]
       \<and> take 2 (calls (concat tr)) = take 2 (calls (tr ! k))
       \<and> filter is_header (concat tr) = [DecodeHeader (header (fst (msgs ! k)))]
       \<and> k < length tr4 \<and> (\<forall>i<k. calls (tr4 ! i) = [])
       \<and> take 2 (calls (tr4 ! k))
           = [DecodeHeader (header (fst (msgs ! k))),
              DecodeData (data (fst (msgs ! k)))
                (length (snd (dec (fst (dec c (header (fst (msgs ! k))))) (data (fst (msgs ! k))))))]
       \<and> take 2 (calls (concat tr4)) = take 2 (calls (tr4 ! k))
       \<and> filter is_header (concat tr4) = [DecodeHeader (header (fst (msgs ! k)))]"
proof -
  have n3: "\<not> seen_iframe (init3 c)" and n4: "\<not> seen_iframe (init4 c t0)"
    by (simp_all add: init3_def init4_def)
  note a = run_sync [where step = "step3 dec ns W H debug" and dec = dec,
      OF iteration_step3 step3_key assms(1-3) n3 assms(4) [unfolded decoder3_def]]
  note b = run_sync [where step = "step4 dec ns W H debug" and dec = dec,
      OF iteration_step4 step4_key assms(1-3) n4 assms(5) [unfolded decoder4_def]]
  show ?thesis
    using a b by (simp add: decoded_init)
qed

theorem sync_gating_witness:
  "calls (fst (decoder3 count_dec id 0 4 2 True msgs4) ! 0) = []
   \<and> take 2 (calls (concat (fst (decoder3 count_dec id 0 4 2 True msgs4))))
       = [DecodeHeader [0], DecodeData (1 # frame42) 1]
   \<and> filter is_header (concat (fst (decoder3 count_dec id 0 4 2 True msgs4))) = [DecodeHeader [0]]
   \<and> calls (fst (decoder4 count_dec id 0 0 4 2 True msgs4) ! 0) = []
   \<and> take 2 (calls (concat (fst (decoder4 count_dec id 0 0 4 2 True msgs4))))
       = [DecodeHeader [0], DecodeData (1 # frame42) 1]
   \<and> filter is_header (concat (fst (decoder4 count_dec id 0 0 4 2 True msgs4))) = [DecodeHeader [0]]"
proof -
  let ?D3 = "decoder3 count_dec id 0 4 2 True msgs4"
  let ?D4 = "decoder4 count_dec id 0 0 4 2 True msgs4"
  have h3: "?D3 = (fst ?D3, snd ?D3)" and h4: "?D4 = (fst ?D4, snd ?D4)"
    by simp_all
  have k: "1 < length msgs4" "\<forall>i<1. \<not> keyframe (fst (msgs4 ! i))" "keyframe (fst (msgs4 ! 1))"
    by (simp_all add: msgs4_def keyframe_def pkt_def V4L2_BUF_FLAG_KEYFRAME_def)
  have v: "header (fst (msgs4 ! 1)) = [0]" "data (fst (msgs4 ! 1)) = 1 # frame42"
    "length (snd (count_dec (fst (count_dec 0 [0])) (1 # frame42))) = 1"
    by (simp_all add: msgs4_def pkt_def count_dec_def)
  show ?thesis
    using sync_gating [OF k h3 h4] v by simp
qed

section \<open>The timestamp queue and the last index\<close>

lemma run_no_stop:
  assumes "\<And>s x. snd (step s x) \<noteq> Inl err"
  shows "snd (run step s xs) \<noteq> Inl err"
proof (induction xs arbitrary: s)
  case Nil
  then show ?case by simp
next
  case (Cons x xs)
  obtain ev r0 where ev: "step s x = (ev, r0)" by (cases "step s x")
  show ?case
  proof (cases r0)
    case (Inl e)
    then show ?thesis using assms [of s x] ev by simp
  next
    case (Inr s1)
    then show ?thesis using Cons.IH [of s1] ev by (auto split: prod.splits)
  qed
qed

lemma step3_queue:
  "snd (step3 dec ns W H debug s (p, e)) \<noteq> Inl IndexError
   \<and> (sends (fst (step3 dec ns W H debug s (p, e))) = []
      \<or> (\<exists>img. sends (fst (step3 dec ns W H debug s (p, e)))
            = [Send img (cnt s) (ns (hd (time_q s @ [t_recv e]))) (ns (t_send e))]))
   \<and> (\<forall>s'. snd (step3 dec ns W H debug s (p, e)) = Inr s' \<longrightarrow>
        sends (fst (step3 dec ns W H debug s (p, e))) = [] \<and> time_q s' = pushed s p e)"
proof (cases "waiting (seen_iframe s) p")
  case True
  then show ?thesis by (simp add: step3_waiting pushed_def)
next
  case False
  then show ?thesis
    by (auto simp add: step3_accept pushed_def the_send_def accepted_def
          dest: pack_Inl split: list.splits sum.splits)
qed

lemma step4_queue:
  "snd (step4 dec ns W H debug s (p, e)) \<noteq> Inl IndexError
   \<and> (sends (fst (step4 dec ns W H debug s (p, e))) = []
      \<or> (\<exists>img. sends (fst (step4 dec ns W H debug s (p, e)))
            = [Send img (cnt s) (ns (hd (time_q s @ [t_recv e]))) (ns (t_send e))]))
   \<and> (\<forall>s'. snd (step4 dec ns W H debug s (p, e)) = Inr s' \<longrightarrow>
        (sends (fst (step4 dec ns W H debug s (p, e))) = [] \<and> time_q s' = pushed s p e)
      \<or> (length (sends (fst (step4 dec ns W H debug s (p, e)))) = 1 \<and> pushed s p e \<noteq> []
          \<and> time_q s' = tl (pushed s p e)))"
proof (cases "waiting (seen_iframe s) p")
  case True
  then show ?thesis by (simp add: step4_waiting pushed_def)
next
  case False
  then show ?thesis
    by (auto simp add: step4_accept pushed_def the_send_def published_def accepted_def
          dest: pack_Inl split: list.splits sum.splits option.splits)
qed

text \<open>
  C8. \<^verbatim>\<open>time_q[0]\<close> is never evaluated on an empty list: no iteration of either script,
  from any state, stops with \<open>IndexError\<close>, and so no run does. The front element goes
  into a send only after the push of the same iteration (the capture argument is the
  head of the queue with the receipt time appended), and the queue loses an element
  only in an iteration that has sent. In the second script an iteration that returns a
  state either has sent nothing and left the queue as it was after the push, or has sent
  once and removed the head of that non-empty queue. In the first script the lines 95
  and 96 end the worker after the send, before the pop of line 102: an iteration that
  returns a state has sent nothing and left the queue as it was after the push.
\<close>

theorem queue_never_read_empty:
  "snd (step3 dec ns W H debug s (p, e)) \<noteq> Inl IndexError
   \<and> snd (step4 dec ns W H debug u (p, e)) \<noteq> Inl IndexError
   \<and> snd (decoder3 dec ns c W H debug msgs) \<noteq> Inl IndexError
   \<and> snd (decoder4 dec ns c t0 W H debug msgs) \<noteq> Inl IndexError
   \<and> (sends (fst (step3 dec ns W H debug s (p, e))) = []
      \<or> (\<exists>img. sends (fst (step3 dec ns W H debug s (p, e)))
            = [Send img (cnt s) (ns (hd (time_q s @ [t_recv e]))) (ns (t_send e))]))
   \<and> (sends (fst (step4 dec ns W H debug u (p, e))) = []
      \<or> (\<exists>img. sends (fst (step4 dec ns W H debug u (p, e)))
            = [Send img (cnt u) (ns (hd (time_q u @ [t_recv e]))) (ns (t_send e))]))
   \<and> (\<forall>s'. snd (step3 dec ns W H debug s (p, e)) = Inr s' \<longrightarrow>
        sends (fst (step3 dec ns W H debug s (p, e))) = [] \<and> time_q s' = pushed s p e)
   \<and> (\<forall>u'. snd (step4 dec ns W H debug u (p, e)) = Inr u' \<longrightarrow>
        (sends (fst (step4 dec ns W H debug u (p, e))) = [] \<and> time_q u' = pushed u p e)
      \<or> (length (sends (fst (step4 dec ns W H debug u (p, e)))) = 1 \<and> pushed u p e \<noteq> []
          \<and> time_q u' = tl (pushed u p e)))"
proof -
  have a: "snd (step3 dec ns W H debug s x) \<noteq> Inl IndexError" for s :: "('a, 'b) wstate" and x
    using step3_queue [of dec ns W H debug s "fst x" "snd x"] by simp
  have b: "snd (step4 dec ns W H debug s x) \<noteq> Inl IndexError" for s :: "('a, 'b) wstate4" and x
    using step4_queue [of dec ns W H debug s "fst x" "snd x"] by simp
  have "snd (decoder3 dec ns c W H debug msgs) \<noteq> Inl IndexError"
    unfolding decoder3_def by (rule run_no_stop [OF a])
  moreover have "snd (decoder4 dec ns c t0 W H debug msgs) \<noteq> Inl IndexError"
    unfolding decoder4_def by (rule run_no_stop [OF b])
  ultimately show ?thesis
    using step3_queue [of dec ns W H debug s p e] step4_queue [of dec ns W H debug u p e]
    by blast
qed

theorem queue_never_read_empty_witness:
  "sends (fst (step3 count_dec id 4 2 False (init3 0) (pkt 5 8 1, tick 20 0)))
     = [Send packed42 0 20 21]
   \<and> snd (step3 count_dec id 4 2 False (init3 0) (pkt 5 8 1, tick 20 0)) \<noteq> Inl IndexError
   \<and> sends (fst (step3 count_dec id 4 2 False (init3 0) (pkt 5 8 0, tick 20 0))) = []
   \<and> (\<exists>s'. snd (step3 count_dec id 4 2 False (init3 0) (pkt 5 8 0, tick 20 0)) = Inr s'
          \<and> time_q s' = [20])
   \<and> length (sends (fst (step4 count_dec id 4 2 False (init4 0 0) (pkt 5 8 1, tick 20 0)))) = 1
   \<and> snd (step4 count_dec id 4 2 False (init4 0 0) (pkt 5 8 1, tick 20 0)) \<noteq> Inl IndexError
   \<and> (\<exists>u'. snd (step4 count_dec id 4 2 False (init4 0 0) (pkt 5 8 1, tick 20 0)) = Inr u'
          \<and> time_q u' = [])"
proof -
  have s3: "\<exists>s'. snd (step3 count_dec id 4 2 False (init3 0) (pkt 5 8 0, tick 20 0)) = Inr s'"
    and s4: "\<exists>u'. snd (step4 count_dec id 4 2 False (init4 0 0) (pkt 5 8 1, tick 20 0)) = Inr u'"
    by (simp_all add: step_defs example_defs)
  have n: "sends (fst (step4 count_dec id 4 2 False (init4 0 0) (pkt 5 8 1, tick 20 0))) \<noteq> []"
    by (simp add: step_defs example_defs)
  have m: "sends (fst (step3 count_dec id 4 2 False (init3 0) (pkt 5 8 1, tick 20 0)))
     = [Send packed42 0 20 21]"
    by code_simp
  have p: "pushed (init3 0 :: (nat, int) wstate) (pkt 5 8 0) (tick 20 0) = [20]"
    "pushed (init4 0 0 :: (nat, int) wstate4) (pkt 5 8 1) (tick 20 0) = [20]"
    by (simp_all add: pushed_def waiting_def V4L2_BUF_FLAG_KEYFRAME_def example_defs)
  note a = queue_never_read_empty [of count_dec id 4 2 False "init3 0" "pkt 5 8 0" "tick 20 0"
        "init4 0 0" 0 "[]" 0]
  note b = queue_never_read_empty [of count_dec id 4 2 False "init3 0" "pkt 5 8 1" "tick 20 0"
        "init4 0 0" 0 "[]" 0]
  have q3: "\<exists>s'. snd (step3 count_dec id 4 2 False (init3 0) (pkt 5 8 0, tick 20 0)) = Inr s'
          \<and> time_q s' = [20]"
    using a s3 p(1) by metis
  have e3: "sends (fst (step3 count_dec id 4 2 False (init3 0) (pkt 5 8 0, tick 20 0))) = []"
    using a s3 by metis
  have q4: "\<exists>u'. snd (step4 count_dec id 4 2 False (init4 0 0) (pkt 5 8 1, tick 20 0)) = Inr u'
          \<and> time_q u' = []"
    using b s4 n p(2) by (metis list.sel(3))
  have l4: "length (sends (fst (step4 count_dec id 4 2 False (init4 0 0) (pkt 5 8 1, tick 20 0)))) = 1"
    using b s4 n by metis
  show ?thesis
    using b m q3 e3 q4 l4 by simp
qed

lemma run_nth_last_idx:
  assumes upd: "\<And>s x s'. snd (step s x) = Inr s' \<Longrightarrow> last_idx s' = encodeId (fst x)"
    and "run step s msgs = (tr, r)" and "i < length tr"
  shows "\<exists>s'. tr ! i = fst (step s' (msgs ! i))
            \<and> last_idx s' = (if i = 0 then last_idx s else encodeId (fst (msgs ! (i - 1))))"
  using assms(2,3)
proof (induction msgs arbitrary: s tr i)
  case Nil
  then show ?case by simp
next
  case (Cons x msgs)
  obtain ev r0 where ev: "step s x = (ev, r0)" by (cases "step s x")
  show ?case
  proof (cases r0)
    case (Inl err)
    then have "tr = [ev]" using Cons.prems(1) ev by simp
    then show ?thesis using Cons.prems(2) ev by (auto intro: exI [of _ s])
  next
    case (Inr s1)
    obtain tr' where tr': "run step s1 msgs = (tr', r)" "tr = ev # tr'"
      using Cons.prems(1) ev Inr by (auto split: prod.splits)
    have l1: "last_idx s1 = encodeId (fst x)"
      using upd [of s x s1] ev Inr by simp
    show ?thesis
    proof (cases i)
      case 0
      then show ?thesis using tr'(2) ev by (auto intro: exI [of _ s])
    next
      case (Suc j)
      then have j: "j < length tr'" using Cons.prems(2) tr'(2) by simp
      from Cons.IH [OF tr'(1) j] obtain s' where
        "tr' ! j = fst (step s' (msgs ! j))"
        "last_idx s' = (if j = 0 then last_idx s1 else encodeId (fst (msgs ! (j - 1))))"
        by blast
      then show ?thesis
        using Suc tr'(2) l1 by (cases j) (auto intro: exI [of _ s'])
    qed
  qed
qed

lemma DropPacket_front_events [simp]:
  "Print DropPacket \<in> set (front_events dec debug s p)
     \<longleftrightarrow> debug \<and> encodeId p \<noteq> 0 \<and> encodeId p \<noteq> last_idx s + 1"
  by (simp add: front_events_def gap_check_def)

lemma DropPacket_wait_events [simp]:
  "Print DropPacket \<in> set (wait_events debug s p)
     \<longleftrightarrow> debug \<and> encodeId p \<noteq> 0 \<and> encodeId p \<noteq> last_idx s + 1"
  by (simp add: wait_events_def gap_check_def)

lemma DropPacket_latency_events [simp]: "Print DropPacket \<notin> set (latency_events debug p)"
  by (simp add: latency_events_def)

lemma DropPacket_forward_events [simp]: "Print DropPacket \<notin> set (forward_events s e f)"
  by (simp add: forward_events_def)

lemma step3_last_idx:
  "(\<forall>s'. snd (step3 dec ns W H debug s (p, e)) = Inr s' \<longrightarrow> last_idx s' = encodeId p)
   \<and> (Print DropPacket \<in> set (fst (step3 dec ns W H debug s (p, e)))
        \<longleftrightarrow> debug \<and> encodeId p \<noteq> 0 \<and> encodeId p \<noteq> last_idx s + 1)"
proof (cases "waiting (seen_iframe s) p")
  case True
  then show ?thesis by (simp add: step3_waiting)
next
  case False
  then show ?thesis
    by (simp add: step3_accept the_send_def published_def accepted_def
          split: list.splits sum.splits option.splits)
qed

lemma step4_last_idx:
  "(\<forall>s'. snd (step4 dec ns W H debug s (p, e)) = Inr s' \<longrightarrow> last_idx s' = encodeId p)
   \<and> (Print DropPacket \<in> set (fst (step4 dec ns W H debug s (p, e)))
        \<longleftrightarrow> debug \<and> encodeId p \<noteq> 0 \<and> encodeId p \<noteq> last_idx s + 1)"
proof (cases "waiting (seen_iframe s) p")
  case True
  then show ?thesis by (simp add: step4_waiting)
next
  case False
  then show ?thesis
    by (simp add: step4_accept the_send_def published_def accepted_def
          split: list.splits sum.splits option.splits)
qed

lemma run_gap_check:
  assumes st: "\<And>s p e. (\<forall>s'. snd (step s (p, e)) = Inr s' \<longrightarrow> last_idx s' = encodeId p)
       \<and> (Print DropPacket \<in> set (fst (step s (p, e)))
            \<longleftrightarrow> debug \<and> encodeId p \<noteq> 0 \<and> encodeId p \<noteq> last_idx s + 1)"
    and run: "run step s msgs = (tr, r)" and i: "i < length tr"
  shows "Print DropPacket \<in> set (tr ! i)
     \<longleftrightarrow> debug \<and> encodeId (fst (msgs ! i)) \<noteq> 0
        \<and> encodeId (fst (msgs ! i)) \<noteq> (if i = 0 then last_idx s else encodeId (fst (msgs ! (i - 1)))) + 1"
proof -
  have upd: "last_idx s' = encodeId (fst x)" if "snd (step s x) = Inr s'" for s x s'
    using st [of s "fst x" "snd x"] that by simp
  have "\<exists>s'. tr ! i = fst (step s' (msgs ! i))
            \<and> last_idx s' = (if i = 0 then last_idx s else encodeId (fst (msgs ! (i - 1))))"
    by (rule run_nth_last_idx [where step = step, OF _ run i]) (rule upd)
  then obtain s' where s': "tr ! i = fst (step s' (msgs ! i))"
    "last_idx s' = (if i = 0 then last_idx s else encodeId (fst (msgs ! (i - 1))))"
    by blast
  show ?thesis
    using st [of s' "fst (msgs ! i)" "snd (msgs ! i)"] s' by simp
qed

text \<open>
  C10. Line 64 stands before the keyframe test, so every iteration that returns a state
  has set \<open>last_idx\<close> to the packet's \<^verbatim>\<open>encodeId\<close>; a packet discarded while waiting
  for the keyframe changes the state in exactly this field. Hence the gap check of
  the packet at position \<open>i\<close> of a run compares with the \<^verbatim>\<open>encodeId\<close> of the packet at
  position \<open>i - 1\<close>, discarded or not, and with the initial \<open>- 1\<close> only at position 0:
  the first check after synchronisation looks at the last discarded packet. Both scripts.
\<close>

theorem last_idx_follows_every_packet:
  "(\<forall>s'. snd (step3 dec ns W H debug s (p, e)) = Inr s' \<longrightarrow> last_idx s' = encodeId p)
   \<and> (\<forall>u'. snd (step4 dec ns W H debug u (p, e)) = Inr u' \<longrightarrow> last_idx u' = encodeId p)
   \<and> (waiting (seen_iframe s) p \<longrightarrow>
        step3 dec ns W H debug s (p, e) = (wait_events debug s p, Inr (s\<lparr>last_idx := encodeId p\<rparr>)))
   \<and> (waiting (seen_iframe u) p \<longrightarrow>
        step4 dec ns W H debug u (p, e) = (wait_events debug u p, Inr (u\<lparr>last_idx := encodeId p\<rparr>)))
   \<and> (\<forall>i<length (fst (decoder3 dec ns c W H debug msgs)).
        Print DropPacket \<in> set (fst (decoder3 dec ns c W H debug msgs) ! i)
          \<longleftrightarrow> debug \<and> encodeId (fst (msgs ! i)) \<noteq> 0
             \<and> encodeId (fst (msgs ! i)) \<noteq> (if i = 0 then - 1 else encodeId (fst (msgs ! (i - 1)))) + 1)
   \<and> (\<forall>i<length (fst (decoder4 dec ns c t0 W H debug msgs)).
        Print DropPacket \<in> set (fst (decoder4 dec ns c t0 W H debug msgs) ! i)
          \<longleftrightarrow> debug \<and> encodeId (fst (msgs ! i)) \<noteq> 0
             \<and> encodeId (fst (msgs ! i)) \<noteq> (if i = 0 then - 1 else encodeId (fst (msgs ! (i - 1)))) + 1)"
proof -
  let ?D3 = "decoder3 dec ns c W H debug msgs" and ?D4 = "decoder4 dec ns c t0 W H debug msgs"
  have r3: "run (step3 dec ns W H debug) (init3 c) msgs = (fst ?D3, snd ?D3)"
    and r4: "run (step4 dec ns W H debug) (init4 c t0) msgs = (fst ?D4, snd ?D4)"
    by (simp_all add: decoder3_def decoder4_def)
  have l: "last_idx (init3 c) = - 1" "last_idx (init4 c t0) = - 1"
    by (simp_all add: init3_def init4_def)
  note g3 = run_gap_check [where step = "step3 dec ns W H debug", OF step3_last_idx r3, unfolded l]
  note g4 = run_gap_check [where step = "step4 dec ns W H debug", OF step4_last_idx r4, unfolded l]
  show ?thesis
    using step3_last_idx [of dec ns W H debug s p e] step4_last_idx [of dec ns W H debug u p e]
      step3_waiting [of s p dec ns W H debug e] step4_waiting [of u p dec ns W H debug e] g3 g4
    by blast
qed

theorem last_idx_follows_every_packet_witness:
  "Print DropPacket \<in> set (fst (decoder3 count_dec id 0 4 2 True msgs4) ! 0)
   \<and> Print DropPacket \<notin> set (fst (decoder3 count_dec id 0 4 2 True msgs4) ! 1)
   \<and> Print DropPacket \<in> set (fst (decoder4 count_dec id 0 0 4 2 True msgs4) ! 0)
   \<and> Print DropPacket \<notin> set (fst (decoder4 count_dec id 0 0 4 2 True msgs4) ! 1)
   \<and> encodeId (fst (msgs4 ! 1)) \<noteq> - 1 + 1
   \<and> snd (step3 count_dec id 4 2 True (init3 0) (pkt 4 0 1, tick 10 0))
       = Inr ((init3 0 :: (nat, int) wstate)\<lparr>last_idx := 4\<rparr>)
   \<and> snd (step4 count_dec id 4 2 True (init4 0 0) (pkt 4 0 1, tick 10 0))
       = Inr ((init4 0 0 :: (nat, int) wstate4)\<lparr>last_idx := 4\<rparr>)"
proof -
  let ?D3 = "decoder3 count_dec id 0 4 2 True msgs4"
  let ?D4 = "decoder4 count_dec id 0 0 4 2 True msgs4"
  note t = last_idx_follows_every_packet [of count_dec id 4 2 True "init3 0" "pkt 4 0 1"
      "tick 10 0" "init4 0 0" 0 msgs4 0]
  have n: "length (fst ?D3) = 2" "length (fst ?D4) = 4"
    by code_simp+
  have w: "waiting (seen_iframe (init3 0 :: (nat, int) wstate)) (pkt 4 0 1)"
    "waiting (seen_iframe (init4 0 0 :: (nat, int) wstate4)) (pkt 4 0 1)"
    by (simp_all add: waiting_def V4L2_BUF_FLAG_KEYFRAME_def example_defs)
  have e: "encodeId (fst (msgs4 ! 0)) = 4" "encodeId (fst (msgs4 ! 1)) = 5" "encodeId (pkt 4 0 1) = 4"
    by (simp_all add: msgs4_def pkt_def)
  have i: "(0::nat) < 4" "(1::nat) < 4" "(0::nat) < 2" "(1::nat) < 2" by simp_all
  have d0: "Print DropPacket \<in> set (fst ?D3 ! 0)" and d0': "Print DropPacket \<in> set (fst ?D4 ! 0)"
    using t n e(1) i(1,3) by simp_all
  have d1: "Print DropPacket \<notin> set (fst ?D3 ! 1)" and d1': "Print DropPacket \<notin> set (fst ?D4 ! 1)"
    using t n e(1,2) i(2,4) by simp_all
  have s3: "snd (step3 count_dec id 4 2 True (init3 0) (pkt 4 0 1, tick 10 0))
       = Inr ((init3 0 :: (nat, int) wstate)\<lparr>last_idx := 4\<rparr>)"
    and s4: "snd (step4 count_dec id 4 2 True (init4 0 0) (pkt 4 0 1, tick 10 0))
       = Inr ((init4 0 0 :: (nat, int) wstate4)\<lparr>last_idx := 4\<rparr>)"
    using t w e(3) by simp_all
  show ?thesis
    using d0 d0' d1 d1' s3 s4 e(2) by simp
qed

section \<open>Chroma order and sequence numbers\<close>

lemma nth_interleave:
  "length us = length vs \<Longrightarrow> i < length us \<Longrightarrow>
     interleave us vs ! (2 * i) = us ! i \<and> interleave us vs ! (2 * i + 1) = vs ! i"
proof (induction us vs arbitrary: i rule: list_induct2)
  case Nil
  then show ?case by simp
next
  case (Cons u us v vs)
  have c: "interleave (u # us) (v # vs) = u # v # interleave us vs"
    by (simp add: interleave_def)
  show ?case
  proof (cases i)
    case 0
    then show ?thesis by (simp add: c)
  next
    case (Suc j)
    then have "j < length us" using Cons.prems by simp
    from Cons.IH [OF this] show ?thesis by (simp add: c Suc)
  qed
qed

text \<open>
  C6. A planar frame is its luma plane \<open>y\<close> of \<open>W * H\<close> bytes followed by the planes
  \<open>u\<close> and \<open>v\<close> of equal length (\<open>(W div 2) * (H div 2)\<close> bytes each for YUV420). The
  packing succeeds and gives the luma plane unchanged followed by the chroma bytes in
  pairs, U before V: byte \<open>W * H + 2 * i\<close> is \<open>u ! i\<close> and the next one is \<open>v ! i\<close>.
  Taking every second byte from \<open>W * H\<close> on, as line 37 of \<^verbatim>\<open>extract_image\<close> does, gives
  back \<open>u\<close>, and from \<open>W * H + 1\<close> on, as line 38 does, gives back \<open>v\<close>.
\<close>

theorem pack_roundtrip:
  assumes "length y = W * H" and "length u = length v"
  shows "pack W H (y @ u @ v) = Inr (y @ interleave u v)
       \<and> take (W * H) (y @ interleave u v) = y
       \<and> slice2 (W * H) (y @ interleave u v) = u
       \<and> slice2 (W * H + 1) (y @ interleave u v) = v
       \<and> (\<forall>i<length u. (y @ interleave u v) ! (W * H + 2 * i) = u ! i
                       \<and> (y @ interleave u v) ! (W * H + 2 * i + 1) = v ! i)"
proof -
  have n: "(y @ interleave u v) ! (W * H + k) = interleave u v ! k" for k
    using assms(1) by (simp add: nth_append)
  have "(y @ interleave u v) ! (W * H + 2 * i) = u ! i
      \<and> (y @ interleave u v) ! (W * H + 2 * i + 1) = v ! i" if "i < length u" for i
    using nth_interleave [OF assms(2) that] n [of "2 * i"] n [of "2 * i + 1"]
    by (simp add: add.assoc)
  then show ?thesis
    using assms pack_planes [OF assms]
    by (simp add: slice2_def every_other_interleave every_other_tl_interleave
          del: One_nat_def)
qed

theorem pack_roundtrip_witness:
  "pack 4 2 frame42 = Inr packed42
   \<and> slice2 (4 * 2) packed42 = [20, 21]
   \<and> slice2 (4 * 2 + 1) packed42 = [30, 31]
   \<and> packed42 ! (4 * 2 + 2 * 1) = 21 \<and> packed42 ! (4 * 2 + 2 * 1 + 1) = 31"
proof -
  have f: "frame42 = [10, 11, 12, 13, 14, 15, 16, 17] @ [20, 21] @ [30, 31]"
    and p: "packed42 = [10, 11, 12, 13, 14, 15, 16, 17] @ interleave [20, 21] [30, 31]"
    by (simp_all add: frame42_def packed42_def interleave_def)
  have l: "length [10, 11, 12, 13, 14, 15, 16, 17 :: byte] = 4 * 2"
    "length [20, 21 :: byte] = length [30, 31 :: byte]" "(1::nat) < length [20, 21 :: byte]"
    by simp_all
  show ?thesis
    using pack_roundtrip [OF l(1,2)] l(3) unfolding f [symmetric] p [symmetric]
    by (metis nth_Cons_0 nth_Cons_Suc One_nat_def)
qed

lemma decoded_renumber [simp]: "decoded dec s (p\<lparr>encodeId := i\<rparr>) = decoded dec s p"
  by (simp add: decoded_def codec_at_data_def)

lemma waiting_renumber [simp]: "waiting seen (p\<lparr>encodeId := i\<rparr>) = waiting seen p"
  by (simp add: waiting_def)

lemma accepted_renumber:
  "accepted dec (s\<lparr>last_idx := l\<rparr>) (p\<lparr>encodeId := i\<rparr>) e = (accepted dec s p e)\<lparr>last_idx := i\<rparr>"
  by (simp add: accepted_def codec_at_data_def)

lemma published_renumber:
  "published dec (s\<lparr>last_idx := l\<rparr>) (p\<lparr>encodeId := i\<rparr>) e = (published dec s p e)\<lparr>last_idx := i\<rparr>"
  by (simp add: published_def accepted_def codec_at_data_def)

lemma calls_front_events_renumber [simp]:
  "calls (front_events dec debug (s\<lparr>last_idx := l\<rparr>) (p\<lparr>encodeId := i\<rparr>))
     = calls (front_events dec debug s p)"
  by (simp add: calls_front_events)

lemma the_send_renumber [simp]: "the_send ns (s\<lparr>last_idx := l\<rparr>) e img = the_send ns s e img"
  by (simp add: the_send_def)

lemma calls_forward_events [simp]: "calls (forward_events s e f) = forward_events s e f"
  by (simp add: forward_events_def)

lemma forward_events_renumber [simp]:
  "forward_events (s\<lparr>last_idx := l\<rparr>) e f = forward_events s e f"
  by (simp add: forward_events_def)

lemma forwarded_time_renumber [simp]: "forwarded_time (s\<lparr>last_idx := l\<rparr>) e = forwarded_time s e"
  by (simp add: forwarded_time_def)

lemma calls_the_send [simp]: "calls (the_send ns s e img # evs) = the_send ns s e img # calls evs"
  by (simp add: the_send_def)

lemma step3_renumber:
  "calls (fst (step3 dec ns W H debug (s\<lparr>last_idx := l\<rparr>) (p\<lparr>encodeId := i\<rparr>, e)))
     = calls (fst (step3 dec ns W H debug s (p, e)))
   \<and> snd (step3 dec ns W H debug (s\<lparr>last_idx := l\<rparr>) (p\<lparr>encodeId := i\<rparr>, e))
     = (case snd (step3 dec ns W H debug s (p, e)) of
          Inl err \<Rightarrow> Inl err | Inr t \<Rightarrow> Inr (t\<lparr>last_idx := i\<rparr>))"
proof (cases "waiting (seen_iframe s) p")
  case True
  then show ?thesis by (simp add: step3_waiting)
next
  case False
  then show ?thesis
    by (simp add: step3_accept accepted_renumber published_renumber
          split: list.splits sum.splits option.splits)
qed

lemma step4_renumber:
  "calls (fst (step4 dec ns W H debug (s\<lparr>last_idx := l\<rparr>) (p\<lparr>encodeId := i\<rparr>, e)))
     = calls (fst (step4 dec ns W H debug s (p, e)))
   \<and> snd (step4 dec ns W H debug (s\<lparr>last_idx := l\<rparr>) (p\<lparr>encodeId := i\<rparr>, e))
     = (case snd (step4 dec ns W H debug s (p, e)) of
          Inl err \<Rightarrow> Inl err | Inr t \<Rightarrow> Inr (t\<lparr>last_idx := i\<rparr>))"
proof (cases "waiting (seen_iframe s) p")
  case True
  then show ?thesis by (simp add: step4_waiting)
next
  case False
  then show ?thesis
    by (simp add: step4_accept accepted_renumber published_renumber
          split: list.splits sum.splits option.splits)
qed

lemma run_renumber:
  assumes st: "\<And>s l p i e.
      calls (fst (step (s\<lparr>last_idx := l\<rparr>) (p\<lparr>encodeId := i\<rparr>, e))) = calls (fst (step s (p, e)))
      \<and> snd (step (s\<lparr>last_idx := l\<rparr>) (p\<lparr>encodeId := i\<rparr>, e))
        = (case snd (step s (p, e)) of Inl err \<Rightarrow> Inl err | Inr t \<Rightarrow> Inr (t\<lparr>last_idx := i\<rparr>))"
    and len: "length ids = length msgs"
  shows "map calls (fst (run step (s\<lparr>last_idx := l\<rparr>) (renumber ids msgs)))
           = map calls (fst (run step s msgs))
       \<and> forget_idx (snd (run step (s\<lparr>last_idx := l\<rparr>) (renumber ids msgs)))
           = forget_idx (snd (run step s msgs))"
  using len
proof (induction ids msgs arbitrary: s l rule: list_induct2)
  case Nil
  then show ?case by (simp add: renumber_def forget_idx_def)
next
  case (Cons i ids x msgs)
  obtain p e where x: "x = (p, e)" by (cases x)
  obtain ev r0 where ev: "step s (p, e) = (ev, r0)" by (cases "step s (p, e)")
  obtain ev' r0' where ev': "step (s\<lparr>last_idx := l\<rparr>) (p\<lparr>encodeId := i\<rparr>, e) = (ev', r0')"
    by (cases "step (s\<lparr>last_idx := l\<rparr>) (p\<lparr>encodeId := i\<rparr>, e)")
  have c: "calls ev' = calls ev"
    and r: "r0' = (case r0 of Inl err \<Rightarrow> Inl err | Inr t \<Rightarrow> Inr (t\<lparr>last_idx := i\<rparr>))"
    using st [where s = s and l = l and p = p and i = i and e = e] ev ev' by simp_all
  have rn: "renumber (i # ids) ((p, e) # msgs) = (p\<lparr>encodeId := i\<rparr>, e) # renumber ids msgs"
    by (simp add: renumber_def)
  show ?case
  proof (cases r0)
    case (Inl err)
    then show ?thesis
      using ev ev' c r by (simp add: rn x forget_idx_def)
  next
    case (Inr t)
    then have r0': "r0' = Inr (t\<lparr>last_idx := i\<rparr>)" using r by simp
    from Cons.IH [where s = t and l = i] show ?thesis
      using ev ev' c Inr r0' by (auto simp add: rn x split: prod.splits)
  qed
qed

lemma init_last_idx [simp]:
  "(init3 c)\<lparr>last_idx := - 1\<rparr> = init3 c" "(init4 c t0)\<lparr>last_idx := - 1\<rparr> = init4 c t0"
  by (simp_all add: init3_def init4_def)

lemma sends_calls [simp]: "sends (calls ev) = sends ev"
  by (induction ev rule: frame_indices.induct) simp_all

lemma sends_concat_calls: "sends (concat (map calls tr)) = sends (concat tr)"
  by (induction tr) simp_all

text \<open>
  C7. Give the packets of a stream any other \<^verbatim>\<open>encodeId\<close> values (\<open>renumber ids\<close>):
  every iteration of the run makes the same calls with the same arguments (decodes,
  sends with payload, frame index and both timestamps, forward), and the run stops in
  the same way or reaches the same state up to \<open>last_idx\<close>. Only debug output can
  differ. Both scripts; in \<open>msgs4\<close> the \<^verbatim>\<open>encodeId\<close> jumps from 5 to 9.
\<close>

theorem encodeId_only_diagnostic:
  assumes "length ids = length msgs"
  shows "map calls (fst (decoder3 dec ns c W H debug (renumber ids msgs)))
           = map calls (fst (decoder3 dec ns c W H debug msgs))
       \<and> forget_idx (snd (decoder3 dec ns c W H debug (renumber ids msgs)))
           = forget_idx (snd (decoder3 dec ns c W H debug msgs))
       \<and> map calls (fst (decoder4 dec ns c t0 W H debug (renumber ids msgs)))
           = map calls (fst (decoder4 dec ns c t0 W H debug msgs))
       \<and> forget_idx (snd (decoder4 dec ns c t0 W H debug (renumber ids msgs)))
           = forget_idx (snd (decoder4 dec ns c t0 W H debug msgs))"
proof -
  have a: "map calls (fst (run (step3 dec ns W H debug) ((init3 c)\<lparr>last_idx := - 1\<rparr>) (renumber ids msgs)))
           = map calls (fst (run (step3 dec ns W H debug) (init3 c) msgs))
       \<and> forget_idx (snd (run (step3 dec ns W H debug) ((init3 c)\<lparr>last_idx := - 1\<rparr>) (renumber ids msgs)))
           = forget_idx (snd (run (step3 dec ns W H debug) (init3 c) msgs))"
    by (rule run_renumber [where step = "step3 dec ns W H debug", OF step3_renumber assms])
  have b: "map calls (fst (run (step4 dec ns W H debug) ((init4 c t0)\<lparr>last_idx := - 1\<rparr>) (renumber ids msgs)))
           = map calls (fst (run (step4 dec ns W H debug) (init4 c t0) msgs))
       \<and> forget_idx (snd (run (step4 dec ns W H debug) ((init4 c t0)\<lparr>last_idx := - 1\<rparr>) (renumber ids msgs)))
           = forget_idx (snd (run (step4 dec ns W H debug) (init4 c t0) msgs))"
    by (rule run_renumber [where step = "step4 dec ns W H debug", OF step4_renumber assms])
  show ?thesis
    using a b unfolding decoder3_def decoder4_def by simp
qed

theorem encodeId_only_diagnostic_witness:
  "map (encodeId \<circ> fst) msgs4 = [4, 5, 9, 10]
   \<and> map (encodeId \<circ> fst) (renumber [4, 5, 6, 7] msgs4) = [4, 5, 6, 7]
   \<and> sends (concat (fst (decoder3 count_dec id 0 4 2 True (renumber [4, 5, 6, 7] msgs4))))
       = [Send packed42 0 20 21]
   \<and> sends (concat (fst (decoder3 count_dec id 0 4 2 True msgs4))) = [Send packed42 0 20 21]
   \<and> sends (concat (fst (decoder4 count_dec id 0 0 4 2 True (renumber [4, 5, 6, 7] msgs4))))
       = [Send packed42 0 20 21, Send packed42 1 30 41]
   \<and> sends (concat (fst (decoder4 count_dec id 0 0 4 2 True msgs4)))
       = [Send packed42 0 20 21, Send packed42 1 30 41]
   \<and> map calls (fst (decoder4 count_dec id 0 0 4 2 True (renumber [4, 5, 6, 7] msgs4)))
       = map calls (fst (decoder4 count_dec id 0 0 4 2 True msgs4))"
proof -
  have l: "length [4, 5, 6, 7 :: int] = length msgs4"
    by (simp add: msgs4_def)
  have e: "map (encodeId \<circ> fst) msgs4 = [4, 5, 9, 10]"
    "map (encodeId \<circ> fst) (renumber [4, 5, 6, 7] msgs4) = [4, 5, 6, 7]"
    by (simp_all add: msgs4_def renumber_def pkt_def)
  have s: "sends (concat (fst (decoder3 count_dec id 0 4 2 True msgs4))) = [Send packed42 0 20 21]"
    "sends (concat (fst (decoder4 count_dec id 0 0 4 2 True msgs4)))
       = [Send packed42 0 20 21, Send packed42 1 30 41]"
    by code_simp+
  note t = encodeId_only_diagnostic [OF l, of count_dec id 0 4 2 True 0]
  have "sends (concat (fst (decoder3 count_dec id 0 4 2 True (renumber [4, 5, 6, 7] msgs4))))
      = sends (concat (fst (decoder3 count_dec id 0 4 2 True msgs4)))"
    using t sends_concat_calls by metis
  moreover have "sends (concat (fst (decoder4 count_dec id 0 0 4 2 True (renumber [4, 5, 6, 7] msgs4))))
      = sends (concat (fst (decoder4 count_dec id 0 0 4 2 True msgs4)))"
    using t sends_concat_calls by metis
  ultimately show ?thesis
    using t s e by simp
qed

section \<open>Display and forward\<close>

text \<open>
  The first script after a send: the iteration has sent once and ends the worker at
  line 95 or 96, so a run of the first script sends at most one frame.
\<close>

lemma step3_stops_after_send:
  "length (sends (fst (step3 dec ns W H debug s (p, e)))) \<le> 1
   \<and> (sends (fst (step3 dec ns W H debug s (p, e))) \<noteq> [] \<longrightarrow>
        snd (step3 dec ns W H debug s (p, e)) = Inl AttributeError
        \<or> snd (step3 dec ns W H debug s (p, e)) = Inl ValueError)"
proof (cases "waiting (seen_iframe s) p")
  case True
  then show ?thesis by (simp add: step3_waiting)
next
  case False
  then show ?thesis
    by (simp add: step3_accept split: list.splits sum.splits)
qed

lemma run_one_send:
  assumes st: "\<And>s x. length (sends (fst (step s x))) \<le> 1
      \<and> (sends (fst (step s x)) \<noteq> [] \<longrightarrow> (\<exists>err. snd (step s x) = Inl err))"
  shows "length (sends (concat (fst (run step s xs)))) \<le> 1"
proof (induction xs arbitrary: s)
  case Nil
  then show ?case by simp
next
  case (Cons x xs)
  obtain ev r0 where ev: "step s x = (ev, r0)" by (cases "step s x")
  note c = st [of s x, unfolded ev, simplified]
  show ?case
  proof (cases r0)
    case (Inl err)
    then show ?thesis using ev c by simp
  next
    case (Inr s1)
    then have "sends ev = []" using c by auto
    then show ?thesis using Cons.IH [of s1] ev Inr by (auto split: prod.splits)
  qed
qed

lemma decoder3_sends_once:
  "length (sends (concat (fst (decoder3 dec ns c W H debug msgs)))) \<le> 1"
proof -
  have "length (sends (fst (step3 dec ns W H debug s x))) \<le> 1
      \<and> (sends (fst (step3 dec ns W H debug s x)) \<noteq> [] \<longrightarrow>
            (\<exists>err. snd (step3 dec ns W H debug s x) = Inl err))" for s :: "('a, 'b) wstate" and x
    using step3_stops_after_send [of dec ns W H debug s "fst x" "snd x"] by auto
  then show ?thesis
    unfolding decoder3_def by (rule run_one_send)
qed

lemma forwards_simps [simp]:
  "forwards [] = []" "forwards (Print m # evs) = forwards evs"
  "forwards (DecodeHeader h # evs) = forwards evs" "forwards (DecodeData d n # evs) = forwards evs"
  "forwards (Send i c a b # evs) = forwards evs"
  "forwards (Forward f c # evs) = Forward f c # forwards evs" "forwards (Sleep # evs) = forwards evs"
  "forwards (xs @ ys) = forwards xs @ forwards ys"
  by (simp_all add: forwards_def)

lemma forwards_front_events [simp]: "forwards (front_events dec debug s p) = []"
  by (simp add: front_events_def gap_check_def)

lemma forwards_wait_events [simp]: "forwards (wait_events debug s p) = []"
  by (simp add: wait_events_def gap_check_def)

lemma forwards_latency_events [simp]: "forwards (latency_events debug p) = []"
  by (simp add: latency_events_def)

lemma forwards_the_send [simp]: "forwards (the_send ns s e img # evs) = forwards evs"
  by (simp add: the_send_def)

lemma dropWhile_front_events [simp]:
  "dropWhile (\<lambda>x. \<not> is_send x) (front_events dec debug s p @ evs) = dropWhile (\<lambda>x. \<not> is_send x) evs"
  "dropWhile (\<lambda>x. \<not> is_send x) (front_events dec debug s p) = []"
  by (auto simp add: front_events_def gap_check_def)

lemma dropWhile_forward_events [simp]:
  "dropWhile (\<lambda>x. \<not> is_send x) (forward_events s e f @ evs) = dropWhile (\<lambda>x. \<not> is_send x) evs"
  "dropWhile (\<lambda>x. \<not> is_send x) (forward_events s e f) = []"
  by (auto simp add: forward_events_def)

lemma dropWhile_wait_events [simp]:
  "dropWhile (\<lambda>x. \<not> is_send x) (wait_events debug s p) = []"
  by (auto simp add: wait_events_def gap_check_def)

lemma step4_forward:
  "((forwards (fst (step4 dec ns W H debug s (p, e))) = []
       \<and> (\<forall>s'. snd (step4 dec ns W H debug s (p, e)) = Inr s' \<longrightarrow>
             last_capture_time s' = last_capture_time s))
    \<or> ((\<exists>f. forwards (fst (step4 dec ns W H debug s (p, e))) = [Forward f (cnt s)])
       \<and> 1 \<le> wall e - last_capture_time s
       \<and> (\<forall>s'. snd (step4 dec ns W H debug s (p, e)) = Inr s' \<longrightarrow> last_capture_time s' = wall e)))
   \<and> forwards (dropWhile (\<lambda>x. \<not> is_send x) (fst (step4 dec ns W H debug s (p, e)))) = []"
proof (cases "waiting (seen_iframe s) p")
  case True
  then show ?thesis by (simp add: step4_waiting)
next
  case False
  then show ?thesis
    by (simp add: step4_accept published_def accepted_def forward_events_def forwarded_time_def
          the_send_def split: list.splits sum.splits)
qed

lemma run_forward_walls:
  assumes st: "\<And>s p e.
      (forwards (fst (step s (p, e))) = []
         \<and> (\<forall>s'. snd (step s (p, e)) = Inr s' \<longrightarrow> last_capture_time s' = last_capture_time s))
      \<or> (forwards (fst (step s (p, e))) \<noteq> []
         \<and> 1 \<le> wall e - last_capture_time s
         \<and> (\<forall>s'. snd (step s (p, e)) = Inr s' \<longrightarrow> last_capture_time s' = wall e))"
    and run: "run step s msgs = (tr, r)"
  shows "successively (\<lambda>a b. 1 \<le> b - a) (last_capture_time s # forward_walls msgs tr)"
  using run
proof (induction msgs arbitrary: s tr)
  case Nil
  then show ?case by simp
next
  case (Cons x msgs)
  obtain ev r0 where ev: "step s x = (ev, r0)" by (cases "step s x")
  note c = st [where s = s and p = "fst x" and e = "snd x", simplified, unfolded ev, simplified]
  show ?case
  proof (cases r0)
    case (Inl err)
    then have "tr = [ev]" using Cons.prems ev by simp
    then show ?thesis using c by auto
  next
    case (Inr s1)
    obtain tr' where tr': "run step s1 msgs = (tr', r)" "tr = ev # tr'"
      using Cons.prems ev Inr by (auto split: prod.splits)
    note ih = Cons.IH [OF tr'(1)]
    from c show ?thesis
    proof
      assume "forwards ev = [] \<and> (\<forall>s'. r0 = Inr s' \<longrightarrow> last_capture_time s' = last_capture_time s)"
      then show ?thesis using ih Inr tr'(2) by simp
    next
      assume a: "forwards ev \<noteq> [] \<and> 1 \<le> wall (snd x) - last_capture_time s
          \<and> (\<forall>s'. r0 = Inr s' \<longrightarrow> last_capture_time s' = wall (snd x))"
      then have "last_capture_time s1 = wall (snd x)" using Inr by simp
      then show ?thesis using ih a tr'(2) by simp
    qed
  qed
qed

lemma run_nth_holds:
  assumes "\<And>s x. P (fst (step s x))" and "run step s msgs = (tr, r)" and "i < length tr"
  shows "P (tr ! i)"
  using run_nth [OF assms(2,3)] assms(1) by metis

text \<open>
  The second half of C9 fails in the second script: the conversion and the queue put stand
  in the loop before the send, so the publish of a forwarded frame waits for them. Here
  the first packet is a keyframe received five seconds after the start.
\<close>

theorem forward_before_publish_counterexample:
  "fst (decoder4 count_dec id 0 0 4 2 False [(pkt 5 8 1, tick 20 5)])
     = [[DecodeHeader [0], DecodeData (1 # frame42) 1, Forward frame42 0, Send packed42 0 20 21]]
   \<and> forwards (takeWhile (\<lambda>x. \<not> is_send x)
         (hd (fst (decoder4 count_dec id 0 0 4 2 False [(pkt 5 8 1, tick 20 5)]))))
     = [Forward frame42 0]"
  by code_simp

text \<open>
  C9, as amended, for the script that forwards (the second). The wall-clock readings at
  the forwards of a run, after the reading at the start, are successively at least one
  second apart (a frame is forwarded only when the clock reads at least one second more
  than at the previous forward); an iteration forwards at most once and never at or
  after its send, so a frame that is forwarded is forwarded before it is published, in
  the loop itself. Wall-clock readings are real numbers here.
\<close>

theorem forward_throttled_inline:
  "successively (\<lambda>a b. 1 \<le> b - a)
     (t0 # forward_walls msgs (fst (decoder4 dec ns c t0 W H debug msgs)))
   \<and> (\<forall>i<length (fst (decoder4 dec ns c t0 W H debug msgs)).
        length (forwards (fst (decoder4 dec ns c t0 W H debug msgs) ! i)) \<le> 1
        \<and> forwards (dropWhile (\<lambda>x. \<not> is_send x) (fst (decoder4 dec ns c t0 W H debug msgs) ! i)) = [])"
proof -
  let ?D4 = "decoder4 dec ns c t0 W H debug msgs"
  have r4: "run (step4 dec ns W H debug) (init4 c t0) msgs = (fst ?D4, snd ?D4)"
    by (simp add: decoder4_def)
  have st: "(forwards (fst (step4 dec ns W H debug s (p, e))) = []
         \<and> (\<forall>s'. snd (step4 dec ns W H debug s (p, e)) = Inr s' \<longrightarrow>
               last_capture_time s' = last_capture_time s))
      \<or> (forwards (fst (step4 dec ns W H debug s (p, e))) \<noteq> []
         \<and> 1 \<le> wall e - last_capture_time s
         \<and> (\<forall>s'. snd (step4 dec ns W H debug s (p, e)) = Inr s' \<longrightarrow> last_capture_time s' = wall e))"
    for s p e
    using step4_forward [of dec ns W H debug s p e] by auto
  have a: "successively (\<lambda>a b. 1 \<le> b - a) (t0 # forward_walls msgs (fst ?D4))"
    using run_forward_walls [where step = "step4 dec ns W H debug", OF st r4]
    by (simp add: init4_def)
  have p4: "length (forwards (fst (step4 dec ns W H debug s x))) \<le> 1
      \<and> forwards (dropWhile (\<lambda>x. \<not> is_send x) (fst (step4 dec ns W H debug s x))) = []"
    for s x
    using step4_forward [of dec ns W H debug s "fst x" "snd x"] by auto
  have b: "length (forwards (fst ?D4 ! i)) \<le> 1
      \<and> forwards (dropWhile (\<lambda>x. \<not> is_send x) (fst ?D4 ! i)) = []" if "i < length (fst ?D4)" for i
    by (rule run_nth_holds [where step = "step4 dec ns W H debug"
          and P = "\<lambda>ev. length (forwards ev) \<le> 1 \<and> forwards (dropWhile (\<lambda>x. \<not> is_send x) ev) = []",
          OF p4 r4 that])
  show ?thesis
    using a b by blast
qed

theorem forward_throttled_inline_witness:
  "map (wall \<circ> snd) msgs_wall = [1, 3 / 2, 5 / 2]
   \<and> forward_walls msgs_wall (fst (decoder4 count_dec id 0 0 4 2 False msgs_wall)) = [1, 5 / 2]
   \<and> successively (\<lambda>a b. 1 \<le> b - a) [0, 1, 5 / 2 :: real]
   \<and> forwards (fst (decoder4 count_dec id 0 0 4 2 False msgs_wall) ! 1) = []
   \<and> length (forwards (fst (decoder4 count_dec id 0 0 4 2 False msgs_wall) ! 2)) \<le> 1
   \<and> forwards (dropWhile (\<lambda>x. \<not> is_send x)
         (fst (decoder4 count_dec id 0 0 4 2 False msgs_wall) ! 2)) = []"
proof -
  let ?D4 = "decoder4 count_dec id 0 0 4 2 False msgs_wall"
  have n: "length (fst ?D4) = 3"
    "forward_walls msgs_wall (fst ?D4) = [1, 5 / 2]" "forwards (fst ?D4 ! 1) = []"
    by code_simp+
  have w: "map (wall \<circ> snd) msgs_wall = [1, 3 / 2, 5 / 2]"
    by (simp add: msgs_wall_def tick_def)
  have i: "(2::nat) < 3" by simp
  note t = forward_throttled_inline [of 0 msgs_wall count_dec id 0 4 2 False, unfolded n]
  show ?thesis
    using t i n(2,3) w by blast
qed

end
